theory Spec2Isabelle
  imports Main "HOL-Library.AList" "HOL-Library.Sublist" "HOL-Library.List_Lexorder"
begin

section \<open>Data model\<close>

text \<open>
  A \<open>TreeConfigParser\<close> object holds one attribute, \<open>tree\<close>, an \<open>OrderedDict\<close> whose
  values are either strings (options) or further \<open>TreeConfigParser\<close> objects
  (subsections).  The ordered dictionary is an association list in insertion order:
  assigning to a key that is present keeps its position, assigning to a new key
  appends it (\<open>AList.update\<close>), and a lookup is \<open>map_of\<close>.

  Strings are lists of characters, read as code points below 256.
\<close>

datatype node = Leaf string | Section "(string \<times> node) list"

type_synonym tree = "(string \<times> node) list"

type_synonym keylist = "string list"

text \<open>The exceptions the modelled code can raise.\<close>

datatype error =
    IndexError
  | KeyError string
  | AttributeError
  | TypeError
  | ValueError
  | ZeroDivisionError
  | IndentationError
  | CrossReferenceError
  | RuntimeError

text \<open>
  The objects a conversion can return: a string, a boolean, an integer (the logging
  levels), a list of strings, the configuration object itself (when a section is handed
  to the identity conversion), an exception object that is returned rather than raised,
  and the results of the library conversions, which are opaque here.
\<close>

datatype val =
    StrVal string
  | BoolVal bool
  | IntVal int
  | StrListVal "string list"
  | ConfigVal tree
  | ExceptionVal error
  | OpaqueVal string

section \<open>Strings\<close>

text \<open>\<open>str.isspace\<close> on one code point below 256.\<close>

definition whitespace :: "char \<Rightarrow> bool" where
  "whitespace c =
     (let n = (of_char c :: nat)
      in (9 \<le> n \<and> n \<le> 13) \<or> (28 \<le> n \<and> n \<le> 32) \<or> n = 133 \<or> n = 160)"

definition isspace :: "string \<Rightarrow> bool" where
  "isspace s = (s \<noteq> [] \<and> list_all whitespace s)"

definition strip :: "string \<Rightarrow> string" where
  "strip s = rev (dropWhile whitespace (rev (dropWhile whitespace s)))"

text \<open>\<open>str.lower\<close> on code points below 256.\<close>

definition lower_char :: "char \<Rightarrow> char" where
  "lower_char c =
     (let n = (of_char c :: nat)
      in if (65 \<le> n \<and> n \<le> 90) \<or> (192 \<le> n \<and> n \<le> 222 \<and> n \<noteq> 215)
         then char_of (n + 32) else c)"

definition lower :: "string \<Rightarrow> string" where
  "lower s = map lower_char s"

text \<open>\<open>s.find(sub)\<close>: the lowest index at which \<open>sub\<close> occurs in \<open>s\<close>, or -1.\<close>

fun find_str :: "string \<Rightarrow> string \<Rightarrow> int" where
  "find_str sub [] = (if sub = [] then 0 else -1)"
| "find_str sub (x # xs) =
     (if prefix sub (x # xs) then 0
      else (let r = find_str sub xs in if r < 0 then -1 else r + 1))"

text \<open>\<open>s.split(c)\<close> for a separator of one character.\<close>

fun split_char :: "char \<Rightarrow> string \<Rightarrow> string list" where
  "split_char c [] = [[]]"
| "split_char c (x # xs) =
     (if x = c then [] # split_char c xs
      else (case split_char c xs of
              [] \<Rightarrow> [[x]]
            | w # ws \<Rightarrow> (x # w) # ws))"

text \<open>
  \<open>s.replace(old, new)\<close>: every occurrence of \<open>old\<close>, found from the left without
  overlap, becomes \<open>new\<close>; an empty \<open>old\<close> matches before every character and at the
  end.
\<close>

function replace :: "string \<Rightarrow> string \<Rightarrow> string \<Rightarrow> string" where
  "replace old new [] = (if old = [] then new else [])"
| "replace old new (x # xs) =
     (if old = [] then new @ x # replace old new xs
      else if prefix old (x # xs) then new @ replace old new (drop (length old) (x # xs))
      else x # replace old new xs)"
  by pat_completeness auto
termination
  by (relation "measure (\<lambda>(old, new, s). length s)") auto

text \<open>
  The characters at which \<open>str.splitlines\<close> breaks a text into lines, among the code
  points below 256: line feed, vertical tab, form feed, carriage return, the file, group
  and record separators, and next line.
\<close>

definition line_break :: "char \<Rightarrow> bool" where
  "line_break c =
     (let n = (of_char c :: nat)
      in (10 \<le> n \<and> n \<le> 13) \<or> (28 \<le> n \<and> n \<le> 30) \<or> n = 133)"

text \<open>
  \<open>s.splitlines()\<close>, the line breaks not kept: a carriage return followed by a line
  feed is one break, and a break at the very end opens no further line.
\<close>

function splitlines :: "string \<Rightarrow> string list" where
  "splitlines s =
     (if s = [] then []
      else takeWhile (\<lambda>c. \<not> line_break c) s #
        (case dropWhile (\<lambda>c. \<not> line_break c) s of
           [] \<Rightarrow> []
         | b # r \<Rightarrow>
             splitlines (if b = char_of (13 :: nat) \<and> r \<noteq> [] \<and> hd r = char_of (10 :: nat)
                         then tl r else r)))"
  by pat_completeness auto
termination
proof (relation "measure length")
  fix s :: string and b r
  assume "s \<noteq> []" and d: "dropWhile (\<lambda>c. \<not> line_break c) s = b # r"
  have "length (dropWhile (\<lambda>c. \<not> line_break c) s) \<le> length s"
    by (rule length_dropWhile_le)
  with d have "length r < length s" by simp
  moreover have "length (tl r) \<le> length r" by simp
  ultimately show "(if b = char_of (13 :: nat) \<and> r \<noteq> [] \<and> hd r = char_of (10 :: nat)
                    then tl r else r, s) \<in> measure length"
    by auto
qed simp

section \<open>Type conversion\<close>

text \<open>
  The conversions \<open>path\<close>, \<open>int\<close>, \<open>float\<close>, \<open>stringlist\<close>, \<open>np_fromfile\<close> and
  \<open>datetime\<close> call into the Python library (\<open>Path\<close>, \<open>int\<close>, \<open>float\<close>, \<open>eval\<close>,
  \<open>str.split\<close>, \<open>numpy.fromfile\<close>, \<open>datetime.strptime\<close>); they are a parameter
  of the model, a function from the tag and the stored object to the outcome.
  Conversions are called without keyword options.
\<close>

type_synonym library = "string \<Rightarrow> node \<Rightarrow> error + val"

fun string_to_string :: "node \<Rightarrow> error + val" where
  "string_to_string (Leaf s) = Inr (StrVal s)"
| "string_to_string (Section t) = Inr (ConfigVal t)"

fun string_to_bool :: "node \<Rightarrow> error + val" where
  "string_to_bool (Leaf s) =
     (if lower s \<in> set [''true'', ''yes'', ''on'', ''1''] then Inr (BoolVal True)
      else if lower s \<in> set [''false'', ''no'', ''off'', ''0''] then Inr (BoolVal False)
      else Inr (ExceptionVal ValueError))"
| "string_to_bool (Section t) = Inl AttributeError"

definition levels :: "(string \<times> int) list" where
  "levels = [(''debug'', 10), (''info'', 20), (''warning'', 30), (''error'', 40),
             (''critical'', 50)]"

fun string_to_log_level :: "node \<Rightarrow> error + val" where
  "string_to_log_level (Leaf s) =
     (case map_of levels (lower s) of
        Some l \<Rightarrow> Inr (IntVal l)
      | None \<Rightarrow> Inl ValueError)"
| "string_to_log_level (Section t) = Inl AttributeError"

definition string_conversion :: "library \<Rightarrow> node \<Rightarrow> string \<Rightarrow> error + val" where
  "string_conversion lib v to_type =
     (if to_type = ''string'' then string_to_string v
      else if to_type = ''bool'' then string_to_bool v
      else if to_type = ''log_level'' then string_to_log_level v
      else if to_type \<in> set [''path'', ''int'', ''float'', ''stringlist'',
                              ''np_fromfile'', ''datetime'']
      then lib to_type v
      else Inl TypeError)"

section \<open>Tree operations\<close>

text \<open>
  A method that mutates the tree returns the outcome together with the tree as the
  call leaves it, also when it raises: Python mutates in place, and what was assigned
  before an exception stays assigned.
\<close>

fun get :: "library \<Rightarrow> keylist \<Rightarrow> string \<Rightarrow> tree \<Rightarrow> error + val" where
  "get lib [] to_type t = Inl IndexError"
| "get lib [key] to_type t =
     (case map_of t key of
        None \<Rightarrow> Inl (KeyError key)
      | Some v \<Rightarrow> string_conversion lib v to_type)"
| "get lib (key # k # ks) to_type t =
     (case map_of t key of
        None \<Rightarrow> Inl (KeyError key)
      | Some (Leaf s) \<Rightarrow> Inl AttributeError
      | Some (Section sub) \<Rightarrow> get lib (k # ks) to_type sub)"

fun set_value :: "keylist \<Rightarrow> string \<Rightarrow> bool \<Rightarrow> tree \<Rightarrow> (error + unit) \<times> tree" where
  "set_value [] v update_tree t = (Inl IndexError, t)"
| "set_value [key] v update_tree t = (Inr (), AList.update key (Leaf v) t)"
| "set_value (key # k # ks) v update_tree t =
     (let t1 = (if update_tree \<and> map_of t key = None
                then AList.update key (Section []) t else t)
      in case map_of t1 key of
           None \<Rightarrow> (Inl (KeyError key), t1)
         | Some (Leaf s) \<Rightarrow> (Inl AttributeError, t1)
         | Some (Section sub) \<Rightarrow>
             (case set_value (k # ks) v update_tree sub of
                (r, sub') \<Rightarrow> (r, AList.update key (Section sub') t1)))"

text \<open>
  \<open>options\<close>, \<open>clone\<close> and \<open>subconfig\<close> test \<open>if keylist:\<close>, which is false for
  the default \<open>None\<close> and for the empty list alike.
\<close>

fun options_at :: "keylist \<Rightarrow> tree \<Rightarrow> error + string list" where
  "options_at [] t = Inr (map fst t)"
| "options_at (key # ks) t =
     (case map_of t key of
        None \<Rightarrow> Inl (KeyError key)
      | Some (Leaf s) \<Rightarrow> Inl AttributeError
      | Some (Section sub) \<Rightarrow> options_at ks sub)"

definition options :: "keylist option \<Rightarrow> tree \<Rightarrow> error + string list" where
  "options keylist t = options_at (case keylist of None \<Rightarrow> [] | Some ks \<Rightarrow> ks) t"

function clone_root :: "tree \<Rightarrow> tree" where
  "clone_root [] = []"
| "clone_root ((key, Leaf s) # rest) = (key, Leaf s) # clone_root rest"
| "clone_root ((key, Section sub) # rest) = (key, Section (clone_root sub)) # clone_root rest"
  by pat_completeness auto
termination
  by (relation "measure (size_list (size_prod (\<lambda>_. 0) size))") auto

fun clone_at :: "keylist \<Rightarrow> tree \<Rightarrow> error + tree" where
  "clone_at [] t = Inr (clone_root t)"
| "clone_at (key # ks) t =
     (case map_of t key of
        None \<Rightarrow> Inl (KeyError key)
      | Some (Leaf s) \<Rightarrow> Inl AttributeError
      | Some (Section sub) \<Rightarrow> clone_at ks sub)"

definition clone :: "keylist option \<Rightarrow> tree \<Rightarrow> error + tree" where
  "clone keylist t = clone_at (case keylist of None \<Rightarrow> [] | Some ks \<Rightarrow> ks) t"

text \<open>
  \<open>subconfig\<close> returns the addressed object itself, not a copy.  The model returns
  the tree found there; that later writes through the result reach the caller's tree is
  not expressed by a value.
\<close>

fun subconfig_at :: "keylist \<Rightarrow> tree \<Rightarrow> error + tree" where
  "subconfig_at [] t = Inr t"
| "subconfig_at (key # ks) t =
     (case map_of t key of
        None \<Rightarrow> Inl (KeyError key)
      | Some (Leaf s) \<Rightarrow> Inl AttributeError
      | Some (Section sub) \<Rightarrow> subconfig_at ks sub)"

definition subconfig :: "keylist option \<Rightarrow> tree \<Rightarrow> error + tree" where
  "subconfig keylist t = subconfig_at (case keylist of None \<Rightarrow> [] | Some ks \<Rightarrow> ks) t"

text \<open>
  The addressing relation used to state properties: the node a keylist leads to, if any.
  The empty keylist addresses the root section.
\<close>

fun node_at :: "keylist \<Rightarrow> tree \<Rightarrow> node option" where
  "node_at [] t = Some (Section t)"
| "node_at (key # ks) t =
     (case map_of t key of
        None \<Rightarrow> None
      | Some (Leaf s) \<Rightarrow> (if ks = [] then Some (Leaf s) else None)
      | Some (Section sub) \<Rightarrow> node_at ks sub)"

text \<open>
  The keys of a dictionary are distinct; \<open>distinct_keys\<close> says so of the association
  lists of a tree, at every level.
\<close>

function distinct_keys :: "tree \<Rightarrow> bool" where
  "distinct_keys [] = True"
| "distinct_keys ((key, Leaf s) # rest) = (key \<notin> set (map fst rest) \<and> distinct_keys rest)"
| "distinct_keys ((key, Section sub) # rest) =
     (key \<notin> set (map fst rest) \<and> distinct_keys sub \<and> distinct_keys rest)"
  by pat_completeness auto
termination
  by (relation "measure (size_list (size_prod (\<lambda>_. 0) size))") auto

text \<open>
  The place of a node in the tree: for each key of the keylist, its index in the insertion
  order of the section it is looked up in.
\<close>

fun key_index :: "string \<Rightarrow> tree \<Rightarrow> nat" where
  "key_index key [] = 0"
| "key_index key ((k, v) # rest) = (if k = key then 0 else Suc (key_index key rest))"

fun place :: "keylist \<Rightarrow> tree \<Rightarrow> nat list" where
  "place [] t = []"
| "place (key # ks) t =
     key_index key t #
       (case map_of t key of
          Some (Section sub) \<Rightarrow> place ks sub
        | _ \<Rightarrow> [])"

text \<open>A library in which every delegated conversion raises, for closed examples.\<close>

definition failing_library :: library where
  "failing_library to_type v = Inl ValueError"

function suboptions :: "tree \<Rightarrow> keylist list" where
  "suboptions [] = []"
| "suboptions ((key, Leaf s) # rest) = [key] # suboptions rest"
| "suboptions ((key, Section sub) # rest) =
     map ((#) key) (suboptions sub) @ suboptions rest"
  by pat_completeness auto
termination
  by (relation "measure (size_list (size_prod (\<lambda>_. 0) size))") auto

text \<open>
  For comparison, the import on trees as values: what the claim says \<open>merge\<close> leaves in
  the section it merges into, when every key of \<open>config\<close> is imported in the order of
  \<open>config\<close> and \<open>config\<close> itself does not change meanwhile.
\<close>

function merged :: "tree \<Rightarrow> tree \<Rightarrow> tree" where
  "merged [] self = self"
| "merged ((key, Section sub) # rest) self =
     merged rest
       (case map_of self key of
          Some (Section mine) \<Rightarrow> AList.update key (Section (merged sub mine)) self
        | _ \<Rightarrow> AList.update key (Section (merged sub [])) self)"
| "merged ((key, Leaf s) # rest) self =
     merged rest (AList.update key (Leaf s) self)"
  by pat_completeness auto
termination
  by (relation "measure (\<lambda>(config, self). size_list (size_prod (\<lambda>_. 0) size) config)") auto

text \<open>
  What \<open>self\<close> holds at a key when that is a section, and the fresh empty section
  otherwise: the tree the recursive call of \<open>merge\<close> merges into.
\<close>

definition mine_at :: "tree \<Rightarrow> string \<Rightarrow> tree" where
  "mine_at self key = (case map_of self key of Some (Section mine) \<Rightarrow> mine | _ \<Rightarrow> [])"

section \<open>Reading the nested convention\<close>

text \<open>
  The inner functions of \<open>read_file\<close> for the convention \<open>'py'\<close>.  The comment and
  reference delimiters are single characters; the indentation is a Python integer.  The
  lines are what \<open>Path(file_name).lines(retain=False)\<close> hands over.
\<close>

definition is_tree_node :: "string \<Rightarrow> bool" where
  "is_tree_node line =
     (let l = strip line in length l > 2 \<and> hd l = CHR ''['' \<and> last l = CHR '']'')"

text \<open>\<open>keylist[:d]\<close> for a Python integer \<open>d\<close>; a negative \<open>d\<close> counts from the end.\<close>

definition slice_to :: "'a list \<Rightarrow> int \<Rightarrow> 'a list" where
  "slice_to xs d = (if d < 0 then take (nat (int (length xs) + d)) xs else take (nat d) xs)"

definition update_keylist :: "keylist \<Rightarrow> int \<Rightarrow> int \<Rightarrow> error + keylist" where
  "update_keylist keylist depth indentation =
     (if indentation = 0 then Inl ZeroDivisionError
      else if depth mod indentation \<noteq> 0 then Inl IndentationError
      else if depth div indentation > int (length keylist) then Inl IndentationError
      else Inr (slice_to keylist (depth div indentation)))"

definition extract_tree_node_py :: "keylist \<Rightarrow> string \<Rightarrow> int \<Rightarrow> error + keylist" where
  "extract_tree_node_py keylist line indentation =
     (let key = butlast (tl (strip line))
      in case update_keylist keylist (find_str key line - 1) indentation of
           Inl e \<Rightarrow> Inl e
         | Inr kl \<Rightarrow> Inr (kl @ [key]))"

text \<open>The key and the value of a leaf line: split at the first \<open>=\<close>, both parts stripped.\<close>

definition leaf_key :: "string \<Rightarrow> string" where
  "leaf_key line =
     (if CHR ''='' \<in> set line then strip (takeWhile (\<lambda>c. c \<noteq> CHR ''='') line)
      else strip line)"

definition leaf_value :: "string \<Rightarrow> string" where
  "leaf_value line =
     (if CHR ''='' \<in> set line then strip (drop 1 (dropWhile (\<lambda>c. c \<noteq> CHR ''='') line))
      else [])"

definition extract_tree_leaf_py ::
  "keylist \<Rightarrow> string \<Rightarrow> int \<Rightarrow> tree \<Rightarrow> (error + keylist) \<times> tree" where
  "extract_tree_leaf_py keylist line indentation t =
     (let key = leaf_key line; v = leaf_value line
      in case update_keylist keylist (find_str key line) indentation of
           Inl e \<Rightarrow> (Inl e, t)
         | Inr kl \<Rightarrow>
             (case set_value (kl @ [key]) v True t of
                (Inl e, t') \<Rightarrow> (Inl e, t')
              | (Inr u, t') \<Rightarrow> (Inr kl, t')))"

definition read_line_py ::
  "string \<Rightarrow> keylist \<Rightarrow> char \<Rightarrow> int \<Rightarrow> tree \<Rightarrow> (error + keylist) \<times> tree" where
  "read_line_py line0 keylist comment_char indentation t =
     (let line = takeWhile (\<lambda>c. c \<noteq> comment_char) line0
      in if line = [] \<or> isspace line then (Inr keylist, t)
         else if is_tree_node line then (extract_tree_node_py keylist line indentation, t)
         else extract_tree_leaf_py keylist line indentation t)"

text \<open>The loop \<open>for line in lines: keylist = read_line_py(...)\<close>.\<close>

fun read_lines_py ::
  "string list \<Rightarrow> keylist \<Rightarrow> char \<Rightarrow> int \<Rightarrow> tree \<Rightarrow> (error + keylist) \<times> tree" where
  "read_lines_py [] keylist comment_char indentation t = (Inr keylist, t)"
| "read_lines_py (line # lines) keylist comment_char indentation t =
     (case read_line_py line keylist comment_char indentation t of
        (Inl e, t') \<Rightarrow> (Inl e, t')
      | (Inr kl, t') \<Rightarrow> read_lines_py lines kl comment_char indentation t')"

section \<open>Resolving references\<close>

definition has_reference :: "string \<Rightarrow> char \<Rightarrow> bool" where
  "has_reference v reference_char = (length v > 2 \<and> reference_char \<in> set v)"

definition extract_references :: "string \<Rightarrow> char \<Rightarrow> string list" where
  "extract_references v reference_char =
     map snd (filter (\<lambda>(i, ref). ref \<noteq> [] \<and> odd i)
                (enumerate 0 (split_char reference_char v)))"

text \<open>
  \<open>solve_references_string\<close> and \<open>solve_references_keylist\<close> call each other;
  \<open>solve_reflist\<close> is the loop \<open>for ref in reflist\<close> of the former, and its argument
  \<open>n\<close> is \<open>max_rec - 1\<close>.  \<open>self.get(keylist)\<close>
  converts with the default tag \<open>'string'\<close>; when it hands back a section object,
  \<open>len(value)\<close> in \<open>has_reference\<close> raises \<open>TypeError\<close>.
\<close>

function solve_references_string ::
      "library \<Rightarrow> string \<Rightarrow> nat \<Rightarrow> char \<Rightarrow> tree \<Rightarrow> (error + string) \<times> tree"
  and solve_reflist ::
      "library \<Rightarrow> string list \<Rightarrow> string \<Rightarrow> nat \<Rightarrow> char \<Rightarrow> tree \<Rightarrow> (error + string) \<times> tree"
  and solve_references_keylist ::
      "library \<Rightarrow> keylist \<Rightarrow> nat \<Rightarrow> char \<Rightarrow> tree \<Rightarrow> (error + string) \<times> tree"
where
  "solve_references_string lib v max_rec reference_char t =
     (if \<not> has_reference v reference_char then (Inr v, t)
      else if max_rec = 0 then (Inl CrossReferenceError, t)
      else solve_reflist lib (extract_references v reference_char) v (max_rec - 1)
             reference_char t)"
| "solve_reflist lib reflist v n reference_char t =
     (case reflist of
        [] \<Rightarrow> (Inr v, t)
      | ref # rest \<Rightarrow>
          (case solve_references_keylist lib (split_char CHR ''.'' ref) n reference_char t of
             (Inl e, t') \<Rightarrow> (Inl e, t')
           | (Inr subvalue, t') \<Rightarrow>
               solve_reflist lib rest
                 (replace (reference_char # ref @ [reference_char]) subvalue v)
                 n reference_char t'))"
| "solve_references_keylist lib keylist max_rec reference_char t =
     (case get lib keylist ''string'' t of
        Inl e \<Rightarrow> (Inl e, t)
      | Inr (StrVal v) \<Rightarrow>
          (case solve_references_string lib v max_rec reference_char t of
             (Inl e, t') \<Rightarrow> (Inl e, t')
           | (Inr v', t') \<Rightarrow>
               (case set_value keylist v' False t' of
                  (Inl e, t'') \<Rightarrow> (Inl e, t'')
                | (Inr u, t'') \<Rightarrow> (Inr v', t'')))
      | Inr other \<Rightarrow> (Inl TypeError, t))"
  by pat_completeness auto
termination
  by (relation "inv_image (less_than <*lex*> less_than <*lex*> less_than)
        (\<lambda>x. case x of
           Inl (lib, v, max_rec, c, t) \<Rightarrow> (max_rec, 0, 0)
         | Inr (Inl (lib, reflist, v, n, c, t)) \<Rightarrow> (n, 2, length reflist)
         | Inr (Inr (lib, keylist, max_rec, c, t)) \<Rightarrow> (max_rec, 1, 0))")
     auto

text \<open>The loop \<open>for keylist in keylistlist: solve_references_keylist(...)\<close>.\<close>

fun solve_keylistlist ::
  "library \<Rightarrow> keylist list \<Rightarrow> nat \<Rightarrow> char \<Rightarrow> tree \<Rightarrow> (error + unit) \<times> tree" where
  "solve_keylistlist lib [] max_rec reference_char t = (Inr (), t)"
| "solve_keylistlist lib (keylist # rest) max_rec reference_char t =
     (case solve_references_keylist lib keylist max_rec reference_char t of
        (Inl e, t') \<Rightarrow> (Inl e, t')
      | (Inr v, t') \<Rightarrow> solve_keylistlist lib rest max_rec reference_char t')"

text \<open>
  The last four lines of \<open>read_file\<close>.  With no leaf the loop does not run, and the
  value of \<open>max_rec\<close> is not used.
\<close>

definition solve_references :: "library \<Rightarrow> char \<Rightarrow> tree \<Rightarrow> (error + unit) \<times> tree" where
  "solve_references lib reference_char t =
     (let keylistlist = suboptions t;
          max_rec = length keylistlist - 1
      in solve_keylistlist lib keylistlist max_rec reference_char t)"

text \<open>
  For comparison, the resolution pass as the specification words it: one budget for the
  whole pass, part of the state, initialised to the number of leaves minus 1, decremented
  at every nested resolution step and never reset; a reference met with the budget at 0
  fails.  Everything else is as in the functions above.  (The budget a nested step hands
  back is never larger than the one it was given; \<open>min\<close> says so where the loop goes
  on, for the termination proof.)
\<close>

function shared_budget_string ::
      "library \<Rightarrow> string \<Rightarrow> char \<Rightarrow> nat \<times> tree \<Rightarrow> (error + string) \<times> nat \<times> tree"
  and shared_budget_reflist ::
      "library \<Rightarrow> string list \<Rightarrow> string \<Rightarrow> char \<Rightarrow> nat \<times> tree
         \<Rightarrow> (error + string) \<times> nat \<times> tree"
  and shared_budget_keylist ::
      "library \<Rightarrow> keylist \<Rightarrow> char \<Rightarrow> nat \<times> tree \<Rightarrow> (error + string) \<times> nat \<times> tree"
where
  "shared_budget_string lib v reference_char (budget, t) =
     (if \<not> has_reference v reference_char then (Inr v, budget, t)
      else if budget = 0 then (Inl CrossReferenceError, budget, t)
      else shared_budget_reflist lib (extract_references v reference_char) v
             reference_char (budget, t))"
| "shared_budget_reflist lib reflist v reference_char (budget, t) =
     (case reflist of
        [] \<Rightarrow> (Inr v, budget, t)
      | ref # rest \<Rightarrow>
          if budget = 0 then (Inl CrossReferenceError, budget, t)
          else
            (case shared_budget_keylist lib (split_char CHR ''.'' ref) reference_char
                    (budget - 1, t) of
               (Inl e, budget', t') \<Rightarrow> (Inl e, budget', t')
             | (Inr subvalue, budget', t') \<Rightarrow>
                 shared_budget_reflist lib rest
                   (replace (reference_char # ref @ [reference_char]) subvalue v)
                   reference_char (min budget' (budget - 1), t')))"
| "shared_budget_keylist lib keylist reference_char (budget, t) =
     (case get lib keylist ''string'' t of
        Inl e \<Rightarrow> (Inl e, budget, t)
      | Inr (StrVal v) \<Rightarrow>
          (case shared_budget_string lib v reference_char (budget, t) of
             (Inl e, budget', t') \<Rightarrow> (Inl e, budget', t')
           | (Inr v', budget', t') \<Rightarrow>
               (case set_value keylist v' False t' of
                  (Inl e, t'') \<Rightarrow> (Inl e, budget', t'')
                | (Inr u, t'') \<Rightarrow> (Inr v', budget', t'')))
      | Inr other \<Rightarrow> (Inl TypeError, budget, t))"
  by pat_completeness auto
termination
  by (relation "inv_image (less_than <*lex*> less_than)
        (\<lambda>x. case x of
           Inl (lib, v, c, budget, t) \<Rightarrow> (budget, 1)
         | Inr (Inl (lib, reflist, v, c, budget, t)) \<Rightarrow> (budget, 0)
         | Inr (Inr (lib, keylist, c, budget, t)) \<Rightarrow> (budget, 2))")
     auto

fun shared_budget_keylistlist ::
  "library \<Rightarrow> keylist list \<Rightarrow> char \<Rightarrow> nat \<times> tree \<Rightarrow> (error + unit) \<times> nat \<times> tree" where
  "shared_budget_keylistlist lib [] reference_char (budget, t) = (Inr (), budget, t)"
| "shared_budget_keylistlist lib (keylist # rest) reference_char (budget, t) =
     (case shared_budget_keylist lib keylist reference_char (budget, t) of
        (Inl e, budget', t') \<Rightarrow> (Inl e, budget', t')
      | (Inr v, budget', t') \<Rightarrow>
          shared_budget_keylistlist lib rest reference_char (budget', t'))"

definition shared_budget_solve_references ::
  "library \<Rightarrow> char \<Rightarrow> tree \<Rightarrow> (error + unit) \<times> nat \<times> tree" where
  "shared_budget_solve_references lib reference_char t =
     (let keylistlist = suboptions t
      in shared_budget_keylistlist lib keylistlist reference_char
           (length keylistlist - 1, t))"

text \<open>\<open>read_file\<close> with \<open>convention='py'\<close>, on the lines of the file.\<close>

definition read_file_py ::
  "library \<Rightarrow> string list \<Rightarrow> char \<Rightarrow> char \<Rightarrow> int \<Rightarrow> tree \<Rightarrow> (error + unit) \<times> tree" where
  "read_file_py lib lines comment_char reference_char indentation t =
     (case read_lines_py lines [] comment_char indentation t of
        (Inl e, t') \<Rightarrow> (Inl e, t')
      | (Inr kl, t') \<Rightarrow> solve_references lib reference_char t')"

section \<open>Writing the nested convention\<close>

text \<open>
  \<open>' ' * depth * indentation\<close> is the empty string when the product is not positive.
\<close>

definition write_tree_node_line_py :: "nat \<Rightarrow> int \<Rightarrow> string \<Rightarrow> string list" where
  "write_tree_node_line_py depth indentation key =
     [replicate (nat (int depth * indentation)) CHR '' '' @ ''['' @ key @ '']'']"

definition write_tree_leaf_line_py :: "nat \<Rightarrow> int \<Rightarrow> string \<Rightarrow> string \<Rightarrow> string list" where
  "write_tree_leaf_line_py depth indentation key v =
     [replicate (nat (int depth * indentation)) CHR '' '' @ key @ '' = '' @ v]"

function write_tree_py :: "tree \<Rightarrow> nat \<Rightarrow> int \<Rightarrow> string list" where
  "write_tree_py [] depth indentation = []"
| "write_tree_py ((key, Section sub) # rest) depth indentation =
     write_tree_node_line_py depth indentation key
     @ write_tree_py sub (depth + 1) indentation
     @ write_tree_py rest depth indentation"
| "write_tree_py ((key, Leaf v) # rest) depth indentation =
     write_tree_leaf_line_py depth indentation key v
     @ write_tree_py rest depth indentation"
  by pat_completeness auto
termination
  by (relation "measure (\<lambda>(t, depth, indentation). size_list (size_prod (\<lambda>_. 0) size) t)") auto

text \<open>\<open>tofile\<close> with \<open>convention='py'\<close>: the lines handed to \<open>write_lines\<close>.\<close>

definition tofile_py :: "tree \<Rightarrow> int \<Rightarrow> string list" where
  "tofile_py t indentation = write_tree_py t 0 indentation"

text \<open>
  The file: \<open>Path(file_name).write_lines(lines)\<close> writes every line followed by a line
  feed, and \<open>Path(file_name).lines(retain=False)\<close> is \<open>splitlines\<close> of the text of
  the file.
\<close>

definition write_lines :: "string list \<Rightarrow> string" where
  "write_lines lines = concat (map (\<lambda>l. l @ [char_of (10 :: nat)]) lines)"

section \<open>Legal trees and normalised text\<close>

text \<open>
  The notions the round-trip property is stated with; they are not part of the program.
  A comment delimiter is legal when it is none of the characters the writer itself
  emits around keys and values.  A key is legal when it is not empty, neither starts nor
  ends with whitespace, does not start with \<open>[\<close>, and contains neither \<open>=\<close> nor the
  comment delimiter nor a line break.  A value is legal when it neither starts nor ends
  with whitespace and contains neither the comment delimiter nor the reference delimiter
  nor a line break.  A tree is legal when all its keys and values are and none of its
  sections is empty.
\<close>

definition legal_comment_char :: "char \<Rightarrow> bool" where
  "legal_comment_char comment_char = (comment_char \<notin> set '' =[]'')"

definition legal_key :: "char \<Rightarrow> string \<Rightarrow> bool" where
  "legal_key comment_char key =
     (key \<noteq> [] \<and> \<not> whitespace (hd key) \<and> \<not> whitespace (last key) \<and>
      hd key \<noteq> CHR ''['' \<and> CHR ''='' \<notin> set key \<and> comment_char \<notin> set key \<and>
      list_all (\<lambda>c. \<not> line_break c) key)"

definition legal_value :: "char \<Rightarrow> char \<Rightarrow> string \<Rightarrow> bool" where
  "legal_value comment_char reference_char v =
     ((v = [] \<or> (\<not> whitespace (hd v) \<and> \<not> whitespace (last v))) \<and>
      comment_char \<notin> set v \<and> reference_char \<notin> set v \<and>
      list_all (\<lambda>c. \<not> line_break c) v)"

function legal_tree :: "char \<Rightarrow> char \<Rightarrow> tree \<Rightarrow> bool" where
  "legal_tree comment_char reference_char [] = True"
| "legal_tree comment_char reference_char ((key, Leaf v) # rest) =
     (legal_key comment_char key \<and> legal_value comment_char reference_char v \<and>
      legal_tree comment_char reference_char rest)"
| "legal_tree comment_char reference_char ((key, Section sub) # rest) =
     (legal_key comment_char key \<and> sub \<noteq> [] \<and>
      legal_tree comment_char reference_char sub \<and>
      legal_tree comment_char reference_char rest)"
  by pat_completeness auto
termination
  by (relation "measure (\<lambda>(cc, rc, t). size_list (size_prod (\<lambda>_. 0) size) t)") auto

text \<open>
  Comment and whitespace normalisation of a text of the nested convention: comments and
  blank lines are removed; whitespace is removed at the end of every line and, on a leaf
  line, replaced by single spaces around the first \<open>=\<close>; the leading whitespace, which
  carries the nesting, is kept.
\<close>

definition normal_line :: "char \<Rightarrow> string \<Rightarrow> string option" where
  "normal_line comment_char line0 =
     (let line = takeWhile (\<lambda>c. c \<noteq> comment_char) line0
      in if line = [] \<or> isspace line then None
         else if \<not> is_tree_node line \<and> CHR ''='' \<in> set line
         then Some (takeWhile whitespace line @ leaf_key line @ '' = '' @ leaf_value line)
         else Some (takeWhile whitespace line @ strip line))"

definition normal_text :: "char \<Rightarrow> string list \<Rightarrow> string list" where
  "normal_text comment_char file_lines = List.map_filter (normal_line comment_char) file_lines"

text \<open>
  The coarsest reading of the same words, used to tell two texts apart: comments are cut
  off, every whitespace character is dropped, and lines left empty are dropped.
\<close>

definition spec_normalize :: "char \<Rightarrow> string list \<Rightarrow> string list" where
  "spec_normalize comment_char lines =
     filter (\<lambda>l. l \<noteq> [])
       (map (\<lambda>l. filter (\<lambda>c. \<not> whitespace c) (takeWhile (\<lambda>c. c \<noteq> comment_char) l))
          lines)"

text \<open>
  The leaves of a tree with their values, in the order of \<open>suboptions\<close>, and the
  assignments \<open>set(keylist, value, update_tree=True)\<close> made one after the other: what
  reading a written tree amounts to.
\<close>

function leaves :: "tree \<Rightarrow> (keylist \<times> string) list" where
  "leaves [] = []"
| "leaves ((key, Leaf v) # rest) = ([key], v) # leaves rest"
| "leaves ((key, Section sub) # rest) =
     map (\<lambda>(p, v). (key # p, v)) (leaves sub) @ leaves rest"
  by pat_completeness auto
termination
  by (relation "measure (size_list (size_prod (\<lambda>_. 0) size))") auto

fun set_leaves :: "(keylist \<times> string) list \<Rightarrow> tree \<Rightarrow> (error + unit) \<times> tree" where
  "set_leaves [] t = (Inr (), t)"
| "set_leaves ((p, v) # rest) t =
     (case set_value p v True t of
        (Inl e, t') \<Rightarrow> (Inl e, t')
      | (Inr u, t') \<Rightarrow> set_leaves rest t')"

text \<open>The two shapes of a line that \<open>write_tree_py\<close> writes for a legal tree.\<close>

definition written_line :: "char \<Rightarrow> char \<Rightarrow> string \<Rightarrow> bool" where
  "written_line cc rc c =
     ((\<exists>n key v. legal_key cc key \<and> legal_value cc rc v \<and>
          c = replicate n CHR '' '' @ key @ '' = '' @ v) \<or>
      (\<exists>n key. legal_key cc key \<and> c = replicate n CHR '' '' @ CHR ''['' # key @ '']''))"

declare splitlines.simps [simp del]
declare solve_references_string.simps [simp del]
declare solve_reflist.simps [simp del]
declare solve_references_keylist.simps [simp del]
declare shared_budget_string.simps [simp del]
declare shared_budget_reflist.simps [simp del]
declare shared_budget_keylist.simps [simp del]

section \<open>Addressing: \<open>get\<close>, \<open>set\<close>, \<open>options\<close>, \<open>clone\<close>, \<open>subconfig\<close>\<close>

lemma clone_root_id: "clone_root t = t"
  by (induction t rule: clone_root.induct) simp_all

text \<open>
  Claim C9.  \<open>get\<close> and \<open>set\<close> index \<open>keylist[0]\<close> before anything else, so the empty
  keylist raises \<open>IndexError\<close> in every tree and with every type tag, and \<open>set\<close> leaves the
  tree as it was.  \<open>options\<close>, \<open>clone\<close> and \<open>subconfig\<close>, with the keylist omitted or
  empty, answer for the root: its keys in insertion order, a copy equal to it, and the
  root itself.
\<close>

theorem empty_keylist:
  "get lib [] to_type t = Inl IndexError \<and>
   set_value [] v update_tree t = (Inl IndexError, t) \<and>
   options None t = Inr (map fst t) \<and> options (Some []) t = Inr (map fst t) \<and>
   clone None t = Inr t \<and> clone (Some []) t = Inr t \<and>
   subconfig None t = Inr t \<and> subconfig (Some []) t = Inr t"
  by (simp add: options_def clone_def subconfig_def clone_root_id)

text \<open>
  Claim C7.  When \<open>set\<close> with \<open>update_tree=True\<close> returns normally on a non-empty
  keylist, \<open>get\<close> on the same keylist with the tag \<open>'string'\<close>, in the tree the call
  left, returns the string that was assigned.
\<close>

theorem set_then_get:
  "keylist \<noteq> [] \<Longrightarrow> fst (set_value keylist v True t) = Inr () \<Longrightarrow>
   get lib keylist ''string'' (snd (set_value keylist v True t)) = Inr (StrVal v)"
proof (induction keylist v True t rule: set_value.induct)
  case (1 v t)
  then show ?case by simp
next
  case (2 key v t)
  then show ?case by (simp add: update_conv' string_conversion_def)
next
  case (3 key k ks v t)
  then show ?case
    by (fastforce simp add: update_conv' Let_def
          split: option.splits node.splits prod.splits if_splits)
qed

theorem set_then_get_witness:
  "[''section1'', ''subsection11'', ''option1''] \<noteq> [] \<and>
   fst (set_value [''section1'', ''subsection11'', ''option1''] ''1'' True []) = Inr () \<and>
   get failing_library [''section1'', ''subsection11'', ''option1''] ''string''
     (snd (set_value [''section1'', ''subsection11'', ''option1''] ''1'' True []))
   = Inr (StrVal ''1'')"
  using set_then_get [of "[''section1'', ''subsection11'', ''option1'']" "''1''" "[]"
      failing_library]
  by simp

text \<open>
  Claim C10.  When a proper, non-empty prefix \<open>p\<close> of the keylist leads to a leaf string,
  \<open>set\<close> with \<open>update_tree=True\<close> raises \<open>AttributeError\<close> (a string has no method
  \<open>set\<close>) and the tree is still the one it was given: the leaf is not replaced by a
  section and nothing is assigned.
\<close>

theorem set_through_leaf:
  "node_at p t = Some (Leaf s) \<Longrightarrow> ks \<noteq> [] \<Longrightarrow>
   set_value (p @ ks) v True t = (Inl AttributeError, t)"
proof (induction p arbitrary: t)
  case Nil
  then show ?case by simp
next
  case (Cons key p)
  then show ?case
    by (cases p; cases ks)
       (auto simp add: update_conv' Let_def update_triv
          split: option.splits node.splits prod.splits if_splits)
qed

theorem set_through_leaf_witness:
  "node_at [''section1'', ''option2''] [(''section1'', Section [(''option2'', Leaf ''2'')])]
     = Some (Leaf ''2'') \<and>
   [''option3''] \<noteq> [] \<and>
   set_value ([''section1'', ''option2''] @ [''option3'']) ''3'' True
     [(''section1'', Section [(''option2'', Leaf ''2'')])]
   = (Inl AttributeError, [(''section1'', Section [(''option2'', Leaf ''2'')])])"
  using set_through_leaf [of "[''section1'', ''option2'']"
      "[(''section1'', Section [(''option2'', Leaf ''2'')])]" "''2''" "[''option3'']" "''3''"]
  by simp

text \<open>
  Claim C1, as stated, fails: with the default tag \<open>'string'\<close> the conversion is the
  identity, and \<open>get\<close> on a keylist that names a subsection returns that section object.
\<close>

theorem get_section_counterexample:
  "node_at [''section1''] [(''section1'', Section [(''option1'', Leaf ''1'')])]
     = Some (Section [(''option1'', Leaf ''1'')]) \<and>
   get failing_library [''section1''] ''string''
     [(''section1'', Section [(''option1'', Leaf ''1'')])]
   = Inr (ConfigVal [(''option1'', Leaf ''1'')])"
  by (simp add: string_conversion_def)

text \<open>
  Claim C1, amended.  For a non-empty keylist that names a subsection, \<open>get\<close> with the
  tag \<open>'string'\<close> returns the section object itself, and \<open>get\<close> with the tag
  \<open>'bool'\<close> or \<open>'log_level'\<close> raises \<open>AttributeError\<close>, the section having no method
  \<open>lower\<close>.
\<close>

theorem get_section:
  "node_at keylist t = Some (Section s) \<Longrightarrow> keylist \<noteq> [] \<Longrightarrow>
   get lib keylist ''string'' t = Inr (ConfigVal s) \<and>
   get lib keylist ''bool'' t = Inl AttributeError \<and>
   get lib keylist ''log_level'' t = Inl AttributeError"
proof (induction lib keylist "''string''" t rule: get.induct)
  case (1 lib t)
  then show ?case by simp
next
  case (2 lib key t)
  then show ?case
    by (auto simp add: string_conversion_def split: option.splits node.splits if_splits)
next
  case (3 lib key k ks t)
  then show ?case
    by (auto simp add: string_conversion_def split: option.splits node.splits if_splits)
qed

theorem get_section_witness:
  "node_at [''section1'', ''subsection11'']
     [(''section1'', Section [(''subsection11'', Section [(''option1'', Leaf ''1'')])])]
     = Some (Section [(''option1'', Leaf ''1'')]) \<and>
   [''section1'', ''subsection11''] \<noteq> [] \<and>
   get failing_library [''section1'', ''subsection11''] ''string''
     [(''section1'', Section [(''subsection11'', Section [(''option1'', Leaf ''1'')])])]
     = Inr (ConfigVal [(''option1'', Leaf ''1'')]) \<and>
   get failing_library [''section1'', ''subsection11''] ''bool''
     [(''section1'', Section [(''subsection11'', Section [(''option1'', Leaf ''1'')])])]
     = Inl AttributeError"
  using get_section [of "[''section1'', ''subsection11'']"
      "[(''section1'', Section [(''subsection11'', Section [(''option1'', Leaf ''1'')])])]"
      "[(''option1'', Leaf ''1'')]" failing_library]
  by simp

section \<open>Conversion to bool\<close>

text \<open>
  Claim C3.  The documentation of \<open>string_conversion\<close> says that a string outside the
  eight tokens raises \<open>ValueError\<close>; \<open>string_to_bool\<close> builds the exception and returns
  it.  At \<open>'maybe'\<close> the conversion returns normally, and what it returns is the
  exception object.
\<close>

theorem string_to_bool_returns_exception:
  "string_conversion lib (Leaf ''maybe'') ''bool'' = Inr (ExceptionVal ValueError)"
  by code_simp

section \<open>Lemmas on strings\<close>

lemma whitespace_space [simp]: "whitespace CHR '' ''"
  by (simp add: whitespace_def)

lemma not_whitespace_eq [simp]: "\<not> whitespace CHR ''=''"
  by (simp add: whitespace_def)

lemma not_whitespace_lbr [simp]: "\<not> whitespace CHR ''[''"
  by (simp add: whitespace_def)

lemma not_whitespace_rbr [simp]: "\<not> whitespace CHR '']''"
  by (simp add: whitespace_def)

lemma dropWhile_all: "list_all P xs \<Longrightarrow> dropWhile P (xs @ ys) = dropWhile P ys"
  by (induction xs) auto

lemma strip_core:
  assumes "list_all whitespace a" and "list_all whitespace b"
    and "s \<noteq> []" and "\<not> whitespace (hd s)" and "\<not> whitespace (last s)"
  shows "strip (a @ s @ b) = s"
proof -
  from assms(3,4) have front: "dropWhile whitespace s = s"
    by (cases s) auto
  from assms(3,5) have rear: "dropWhile whitespace (rev s) = rev s"
    by (cases s rule: rev_cases) auto
  have "dropWhile whitespace (a @ s @ b) = s @ b"
    using assms(1,3,4) by (cases s) (simp_all add: dropWhile_all)
  moreover have "dropWhile whitespace (rev b @ rev s) = rev s"
    using assms(2) rear by (simp add: dropWhile_all list_all_iff)
  ultimately show ?thesis by (simp add: strip_def)
qed

lemma dropWhile_all_Nil: "list_all P xs \<Longrightarrow> dropWhile P xs = []"
  by (induction xs) auto

lemma strip_blank: "list_all whitespace a \<Longrightarrow> strip a = []"
  by (simp add: strip_def dropWhile_all_Nil)

lemma find_str_indent:
  "key \<noteq> [] \<Longrightarrow> hd key \<noteq> c \<Longrightarrow> find_str key (replicate n c @ key @ rest) = int n"
proof (induction n)
  case 0
  then show ?case by (cases key) simp_all
next
  case (Suc n)
  then have "\<not> prefix key (c # replicate n c @ key @ rest)"
    by (cases key) auto
  with Suc show ?case by simp
qed

lemma find_str_bracket:
  "key \<noteq> [] \<Longrightarrow> hd key \<noteq> CHR '' '' \<Longrightarrow> hd key \<noteq> CHR ''['' \<Longrightarrow>
   find_str key (replicate n CHR '' '' @ CHR ''['' # key @ rest) = int n + 1"
proof (induction n)
  case 0
  then have "\<not> prefix key (CHR ''['' # key @ rest)"
    by (cases key) auto
  moreover from 0 have "find_str key (key @ rest) = 0"
    by (cases key) simp_all
  ultimately show ?case by simp
next
  case (Suc n)
  then have "\<not> prefix key (CHR '' '' # replicate n CHR '' '' @ CHR ''['' # key @ rest)"
    by (cases key) auto
  with Suc show ?case by simp
qed


lemma takeWhile_stop:
  "list_all P xs \<Longrightarrow> \<not> P y \<Longrightarrow> takeWhile P (xs @ y # ys) = xs"
  by (induction xs) auto

lemma dropWhile_stop:
  "list_all P xs \<Longrightarrow> \<not> P y \<Longrightarrow> dropWhile P (xs @ y # ys) = y # ys"
  by (induction xs) auto

lemma find_str_after:
  "key \<noteq> [] \<Longrightarrow> list_all (\<lambda>c. c \<noteq> hd key) a \<Longrightarrow>
   find_str key (a @ key @ rest) = int (length a)"
proof (induction a)
  case Nil
  then show ?case by (cases key) simp_all
next
  case (Cons x a)
  then have "\<not> prefix key (x # a @ key @ rest)"
    by (cases key) auto
  with Cons show ?case by simp
qed

lemma strip_decompose:
  assumes "strip s \<noteq> []"
  shows "\<exists>b. s = takeWhile whitespace s @ strip s @ b \<and> \<not> whitespace (hd (strip s))"
proof -
  define m where "m = dropWhile whitespace s"
  define b where "b = rev (takeWhile whitespace (rev m))"
  have s: "s = takeWhile whitespace s @ m"
    by (simp add: m_def)
  have m: "m = strip s @ b"
    unfolding b_def strip_def m_def
    by (metis rev_append rev_rev_ident takeWhile_dropWhile_id)
  have "strip s = rev (dropWhile whitespace (rev m))"
    by (simp add: strip_def m_def)
  then have "m = [] \<Longrightarrow> strip s = []"
    by simp
  with assms have "m \<noteq> []" by blast
  then have "\<not> whitespace (hd m)"
    unfolding m_def by (rule hd_dropWhile)
  moreover from m assms have "hd m = hd (strip s)"
    by (cases "strip s") auto
  ultimately show ?thesis using s m by metis
qed

section \<open>Indentation\<close>

text \<open>
  The width that the callers of \<open>update_keylist\<close> measure with \<open>line.find(key)\<close> is the
  number of leading whitespace characters of the line, for a leaf line whose key is not
  empty and for a section line whose name starts neither with whitespace nor with \<open>[\<close>.
\<close>

lemma leaf_depth_is_width:
  assumes "leaf_key line \<noteq> []"
  shows "find_str (leaf_key line) line = int (length (takeWhile whitespace line))"
proof -
  define part where
    "part = (if CHR ''='' \<in> set line then takeWhile (\<lambda>c. c \<noteq> CHR ''='') line else line)"
  have key: "leaf_key line = strip part"
    by (simp add: leaf_key_def part_def)
  obtain rest where line: "line = part @ rest"
    unfolding part_def by (metis append_Nil2 takeWhile_dropWhile_id)
  from assms key have ne: "strip part \<noteq> []" by simp
  from strip_decompose [OF ne] obtain b where
    part: "part = takeWhile whitespace part @ strip part @ b"
    and hd: "\<not> whitespace (hd (strip part))"
    by blast
  define a where "a = takeWhile whitespace part"
  have la: "line = a @ strip part @ (b @ rest)"
    using line part a_def by (metis append.assoc)
  have alla: "list_all whitespace a"
    unfolding a_def by (simp add: list_all_iff) (meson set_takeWhileD)
  then have "list_all (\<lambda>c. c \<noteq> hd (strip part)) a"
    using hd by (auto simp add: list_all_iff)
  from find_str_after [OF ne this, of "b @ rest"]
  have "find_str (strip part) line = int (length a)"
    using la by simp
  moreover have "takeWhile whitespace line = a"
  proof -
    from ne obtain x xs where "strip part = x # xs" by (cases "strip part") auto
    with hd la have l: "line = a @ x # (xs @ b @ rest)" and x: "\<not> whitespace x"
      by simp_all
    from takeWhile_stop [OF alla x, of "xs @ b @ rest"] l show ?thesis
      by simp
  qed
  ultimately show ?thesis using key by simp
qed


lemma node_depth_is_width:
  assumes node: "is_tree_node line"
    and hd1: "\<not> whitespace (hd (butlast (tl (strip line))))"
    and hd2: "hd (butlast (tl (strip line))) \<noteq> CHR ''[''"
  shows "find_str (butlast (tl (strip line))) line - 1 = int (length (takeWhile whitespace line))"
proof -
  define core where "core = strip line"
  define key where "key = butlast (tl core)"
  from node have len: "length core > 2" and first: "hd core = CHR ''[''"
    and final: "last core = CHR '']''"
    by (simp_all add: is_tree_node_def Let_def core_def)
  from len have ne: "core \<noteq> []" and tl_ne: "tl core \<noteq> []"
    by (cases core; cases "tl core"; auto)+
  have core: "core = CHR ''['' # key @ '']''"
  proof -
    from ne first have "core = CHR ''['' # tl core" by (cases core) auto
    moreover from tl_ne have "tl core = butlast (tl core) @ [last (tl core)]" by simp
    moreover from tl_ne have "last (tl core) = last core" by (simp add: last_tl)
    ultimately show ?thesis using final key_def by metis
  qed
  from len core have key_ne: "key \<noteq> []" by auto
  from ne have "strip line \<noteq> []" by (simp add: core_def)
  from strip_decompose [OF this] obtain b where
    line: "line = takeWhile whitespace line @ core @ b"
    by (auto simp add: core_def)
  define a where "a = takeWhile whitespace line"
  have la: "line = (a @ ''['') @ key @ ('']'' @ b)"
    using line core a_def by (metis append.assoc append_Cons append_Nil)
  have "list_all whitespace a"
    unfolding a_def by (simp add: list_all_iff) (meson set_takeWhileD)
  with hd1 hd2 have "list_all (\<lambda>c. c \<noteq> hd key) (a @ ''['')"
    by (auto simp add: list_all_iff key_def core_def)
  from find_str_after [OF key_ne this, of "'']'' @ b"] la
  have "find_str key line = int (length a) + 1"
    by simp
  then show ?thesis
    by (simp add: key_def core_def a_def)
qed

lemma set_value_not_indentation:
  "fst (set_value kl v u t) \<noteq> Inl IndentationError"
proof (induction kl arbitrary: t)
  case Nil
  then show ?case by simp
next
  case (Cons k ks)
  show ?case
  proof (cases ks)
    case Nil
    then show ?thesis by simp
  next
    case (Cons k' ks')
    define t1 where
      "t1 = (if u \<and> map_of t k = None then AList.update k (Section []) t else t)"
    show ?thesis
    proof (cases "map_of t1 k")
      case None
      with Cons show ?thesis by (simp add: t1_def Let_def)
    next
      case (Some n)
      show ?thesis
      proof (cases n)
        case (Leaf s)
        with Some Cons show ?thesis by (simp add: t1_def Let_def)
      next
        case (Section sub)
        with Some Cons have "fst (set_value (k # ks) v u t) = fst (set_value ks v u sub)"
          by (simp add: t1_def Let_def split: prod.splits)
        with Cons.IH show ?thesis by simp
      qed
    qed
  qed
qed

lemma update_keylist_cases:
  "indentation \<noteq> 0 \<Longrightarrow>
   update_keylist keylist depth indentation =
     (if depth mod indentation \<noteq> 0 \<or> int (length keylist) < depth div indentation
      then Inl IndentationError
      else Inr (slice_to keylist (depth div indentation)))"
  by (simp add: update_keylist_def)

lemma not_blank:
  assumes "strip s \<noteq> []"
  shows "s \<noteq> [] \<and> \<not> isspace s"
  using assms strip_blank [of s] by (auto simp add: isspace_def strip_def)

lemma leaf_key_not_blank:
  assumes "leaf_key line \<noteq> []"
  shows "line \<noteq> [] \<and> \<not> isspace line"
proof (cases "CHR ''='' \<in> set line")
  case False
  with assms show ?thesis using not_blank by (simp add: leaf_key_def)
next
  case True
  define part where "part = takeWhile (\<lambda>c. c \<noteq> CHR ''='') line"
  from True assms have "strip part \<noteq> []" by (simp add: leaf_key_def part_def)
  then have "\<not> list_all whitespace part" using strip_blank by blast
  then obtain c where "c \<in> set part" "\<not> whitespace c" by (auto simp add: list_all_iff)
  then have "c \<in> set line" unfolding part_def by (meson set_takeWhileD)
  with \<open>\<not> whitespace c\<close> show ?thesis by (auto simp add: isspace_def list_all_iff)
qed

lemma read_leaf_line:
  assumes ind: "indentation \<noteq> 0"
    and line: "line = takeWhile (\<lambda>c. c \<noteq> cc) line0"
    and leaf: "\<not> is_tree_node line" and key: "leaf_key line \<noteq> []"
  shows "read_line_py line0 keylist cc indentation t =
     (let w = int (length (takeWhile whitespace line))
      in if w mod indentation \<noteq> 0 \<or> int (length keylist) < w div indentation
         then (Inl IndentationError, t)
         else (case set_value (slice_to keylist (w div indentation) @ [leaf_key line])
                      (leaf_value line) True t of
                 (Inl e, t') \<Rightarrow> (Inl e, t')
               | (Inr u, t') \<Rightarrow> (Inr (slice_to keylist (w div indentation)), t')))"
proof -
  from leaf_key_not_blank [OF key] have "line \<noteq> []" "\<not> isspace line" by simp_all
  with leaf have "read_line_py line0 keylist cc indentation t
      = extract_tree_leaf_py keylist line indentation t"
    unfolding read_line_py_def Let_def line [symmetric] by simp
  then show ?thesis
    by (simp add: extract_tree_leaf_py_def Let_def leaf_depth_is_width [OF key]
          update_keylist_cases [OF ind])
qed

lemma read_node_line:
  assumes ind: "indentation \<noteq> 0"
    and line: "line = takeWhile (\<lambda>c. c \<noteq> cc) line0"
    and node: "is_tree_node line"
    and hd1: "\<not> whitespace (hd (butlast (tl (strip line))))"
    and hd2: "hd (butlast (tl (strip line))) \<noteq> CHR ''[''"
  shows "read_line_py line0 keylist cc indentation t =
     (let w = int (length (takeWhile whitespace line))
      in if w mod indentation \<noteq> 0 \<or> int (length keylist) < w div indentation
         then (Inl IndentationError, t)
         else (Inr (slice_to keylist (w div indentation) @ [butlast (tl (strip line))]), t))"
proof -
  from node have "strip line \<noteq> []"
    by (auto simp add: is_tree_node_def Let_def)
  from not_blank [OF this] have "line \<noteq> []" "\<not> isspace line" by simp_all
  with node have "read_line_py line0 keylist cc indentation t
      = (extract_tree_node_py keylist line indentation, t)"
    unfolding read_line_py_def Let_def line [symmetric] by simp
  then show ?thesis
    by (simp add: extract_tree_node_py_def Let_def node_depth_is_width [OF node hd1 hd2]
          update_keylist_cases [OF ind])
qed

text \<open>
  Claim C8, as stated, fails.  The width that \<open>update_keylist\<close> is given is not
  measured on the leading whitespace: it is \<open>line.find(key)\<close> on a leaf line and
  \<open>line.find(key) - 1\<close> on a section line.  With the unit 4: the line \<open>  = 3\<close> has
  width 2 and is accepted, the key being empty and found at 0; the lines \<open>[[]\<close>, of
  width 0, and \<open>    [  ]\<close>, of width 4 below one open section, raise
  \<open>IndentationError\<close>, the name being found at 0.  A unit of 0 raises
  \<open>ZeroDivisionError\<close>.  And a leaf line of legal width below a section line whose
  name is the key of a leaf is not accepted: \<open>set\<close> raises \<open>AttributeError\<close>.
\<close>

theorem indentation_counterexample:
  "int (length (takeWhile whitespace ''  = 3'')) = 2 \<and>
   read_line_py ''  = 3'' [] CHR ''#'' 4 [] = (Inr [], [([], Leaf ''3'')]) \<and>
   int (length (takeWhile whitespace ''[[]'')) = 0 \<and>
   read_line_py ''[[]'' [] CHR ''#'' 4 [] = (Inl IndentationError, []) \<and>
   int (length (takeWhile whitespace ''    [  ]'')) = 4 \<and>
   read_line_py ''    [  ]'' [''a''] CHR ''#'' 4 [] = (Inl IndentationError, []) \<and>
   update_keylist [] 0 0 = Inl ZeroDivisionError \<and>
   read_line_py ''b = 2'' [] CHR ''#'' 0 [] = (Inl ZeroDivisionError, []) \<and>
   read_lines_py [''a = 1'', ''[a]''] [] CHR ''#'' 4 [] = (Inr [''a''], [(''a'', Leaf ''1'')]) \<and>
   int (length (takeWhile whitespace ''    b = 2'')) = 4 \<and>
   read_line_py ''    b = 2'' [''a''] CHR ''#'' 4 [(''a'', Leaf ''1'')]
     = (Inl AttributeError, [(''a'', Leaf ''1'')])"
  by code_simp

text \<open>
  Claim C8, amended.  For an indentation unit other than 0, \<open>update_keylist\<close> raises
  \<open>IndentationError\<close> exactly when the width it is given is not a multiple of the unit
  or the quotient exceeds the length of the active keylist, and returns the keylist cut
  to that depth in every other case.  (Python's \<open>%\<close> and \<open>//\<close> round towards minus
  infinity, as \<open>mod\<close> and \<open>div\<close> do on \<open>int\<close>; a unit of 0 raises
  \<open>ZeroDivisionError\<close>.)  For a line of the file, cut at the comment delimiter, with
  \<open>w\<close> leading whitespace characters: if the line is a leaf line with a non-empty key, or
  a section line whose name starts neither with whitespace nor with \<open>[\<close>, then reading it
  raises \<open>IndentationError\<close> exactly when \<open>w\<close> is not a multiple of the unit or \<open>w\<close>
  divided by the unit exceeds the length of the active keylist; in every other case the
  section line is accepted and opens the section below the keylist cut to that depth,
  and the leaf line is handed to \<open>set\<close> with that keylist and \<open>update_tree=True\<close>,
  which can still raise \<open>AttributeError\<close>.
\<close>

theorem indentation_error:
  "indentation \<noteq> 0 \<Longrightarrow>
   ((update_keylist keylist depth indentation = Inl IndentationError) =
      (depth mod indentation \<noteq> 0 \<or> int (length keylist) < depth div indentation)) \<and>
   (update_keylist keylist depth indentation \<noteq> Inl IndentationError \<longrightarrow>
      update_keylist keylist depth indentation
        = Inr (slice_to keylist (depth div indentation))) \<and>
   (line = takeWhile (\<lambda>c. c \<noteq> comment_char) line0 \<and>
    w = int (length (takeWhile whitespace line)) \<longrightarrow>
      (\<not> is_tree_node line \<and> leaf_key line \<noteq> [] \<longrightarrow>
         ((fst (read_line_py line0 keylist comment_char indentation t) = Inl IndentationError) =
            (w mod indentation \<noteq> 0 \<or> int (length keylist) < w div indentation)) \<and>
         (fst (read_line_py line0 keylist comment_char indentation t) \<noteq> Inl IndentationError \<longrightarrow>
            read_line_py line0 keylist comment_char indentation t =
              (case set_value (slice_to keylist (w div indentation) @ [leaf_key line])
                      (leaf_value line) True t of
                 (Inl e, t') \<Rightarrow> (Inl e, t')
               | (Inr u, t') \<Rightarrow> (Inr (slice_to keylist (w div indentation)), t')))) \<and>
      (is_tree_node line \<and> \<not> whitespace (hd (butlast (tl (strip line)))) \<and>
       hd (butlast (tl (strip line))) \<noteq> CHR ''['' \<longrightarrow>
         ((fst (read_line_py line0 keylist comment_char indentation t) = Inl IndentationError) =
            (w mod indentation \<noteq> 0 \<or> int (length keylist) < w div indentation)) \<and>
         (fst (read_line_py line0 keylist comment_char indentation t) \<noteq> Inl IndentationError \<longrightarrow>
            read_line_py line0 keylist comment_char indentation t =
              (Inr (slice_to keylist (w div indentation) @ [butlast (tl (strip line))]), t))))"
  (is "_ \<Longrightarrow> ?upd \<and> ?acc \<and> (?lw \<longrightarrow> (?isleaf \<longrightarrow> ?leaf) \<and> (?isnode \<longrightarrow> ?node))")
proof -
  assume ind: "indentation \<noteq> 0"
  have upd: ?upd and acc: ?acc
    using ind by (auto simp add: update_keylist_def)
  have lines: "?lw \<longrightarrow> (?isleaf \<longrightarrow> ?leaf) \<and> (?isnode \<longrightarrow> ?node)"
  proof
    assume lw: ?lw
    from lw have line: "line = takeWhile (\<lambda>c. c \<noteq> comment_char) line0"
      by (rule conjunct1)
    from lw have w: "w = int (length (takeWhile whitespace line))"
      by (rule conjunct2)
    have leaf: "?isleaf \<longrightarrow> ?leaf"
    proof
      assume l: ?isleaf
      from l have l1: "\<not> is_tree_node line" by (rule conjunct1)
      from l have l2: "leaf_key line \<noteq> []" by (rule conjunct2)
      note r = read_leaf_line [OF ind line l1 l2, of keylist t, folded w, unfolded Let_def]
      have "fst (set_value (slice_to keylist (w div indentation) @ [leaf_key line])
                   (leaf_value line) True t) \<noteq> Inl IndentationError"
        by (rule set_value_not_indentation)
      then show ?leaf
        unfolding r by (auto split: prod.splits sum.splits)
    qed
    have node: "?isnode \<longrightarrow> ?node"
    proof
      assume n: ?isnode
      then have n1: "is_tree_node line"
        and n2: "\<not> whitespace (hd (butlast (tl (strip line))))"
        and n3: "hd (butlast (tl (strip line))) \<noteq> CHR ''[''"
        by blast+
      note r = read_node_line [OF ind line n1 n2 n3, of keylist t, folded w, unfolded Let_def]
      show ?node
        unfolding r by auto
    qed
    from leaf node show "(?isleaf \<longrightarrow> ?leaf) \<and> (?isnode \<longrightarrow> ?node)"
      by (rule conjI)
  qed
  from acc lines have "?acc \<and> (?lw \<longrightarrow> (?isleaf \<longrightarrow> ?leaf) \<and> (?isnode \<longrightarrow> ?node))"
    by (rule conjI)
  with upd show ?thesis
    by (rule conjI)
qed

theorem indentation_error_witness:
  "(4::int) \<noteq> 0 \<and>
   update_keylist [''section1''] 6 4 = Inl IndentationError \<and>
   update_keylist [''section1''] 8 4 = Inl IndentationError \<and>
   update_keylist [''section1'', ''subsection11''] 4 4 = Inr [''section1''] \<and>
   takeWhile (\<lambda>c. c \<noteq> CHR ''#'') ''      option3 = 3 # note'' = ''      option3 = 3 '' \<and>
   int (length (takeWhile whitespace ''      option3 = 3 '')) = 6 \<and>
   \<not> is_tree_node ''      option3 = 3 '' \<and>
   leaf_key ''      option3 = 3 '' \<noteq> [] \<and>
   fst (read_line_py ''      option3 = 3 # note'' [''section1''] CHR ''#'' 4 [])
     = Inl IndentationError \<and>
   is_tree_node ''    [subsection11]'' \<and>
   read_line_py ''    [subsection11]'' [''section1''] CHR ''#'' 4 []
     = (Inr [''section1'', ''subsection11''], [])"
proof -
  have four: "(4::int) \<noteq> 0" by simp
  have cut: "takeWhile (\<lambda>c. c \<noteq> CHR ''#'') ''      option3 = 3 # note'' = ''      option3 = 3 ''"
    by simp
  have width: "int (length (takeWhile whitespace ''      option3 = 3 '')) = 6"
    by code_simp
  have leaf: "\<not> is_tree_node ''      option3 = 3 ''" "leaf_key ''      option3 = 3 '' \<noteq> []"
    by code_simp+
  have cut': "takeWhile (\<lambda>c. c \<noteq> CHR ''#'') ''    [subsection11]'' = ''    [subsection11]''"
    by simp
  have width': "int (length (takeWhile whitespace ''    [subsection11]'')) = 4"
    by code_simp
  have node: "is_tree_node ''    [subsection11]''"
    "\<not> whitespace (hd (butlast (tl (strip ''    [subsection11]''))))"
    "hd (butlast (tl (strip ''    [subsection11]''))) \<noteq> CHR ''[''"
    "butlast (tl (strip ''    [subsection11]'')) = ''subsection11''"
    by code_simp+
  from indentation_error [OF four, of "[''section1'']" 6 "''      option3 = 3 ''" "CHR ''#''"
      "''      option3 = 3 # note''" 6 "[]"] cut width leaf
  have a: "update_keylist [''section1''] 6 4 = Inl IndentationError"
    and b: "fst (read_line_py ''      option3 = 3 # note'' [''section1''] CHR ''#'' 4 [])
     = Inl IndentationError"
    by simp_all
  from indentation_error [OF four, of "[''section1'']" 8 "''    [subsection11]''" "CHR ''#''"
      "''    [subsection11]''" 4 "[]"] cut' width' node
  have c: "update_keylist [''section1''] 8 4 = Inl IndentationError"
    and d: "read_line_py ''    [subsection11]'' [''section1''] CHR ''#'' 4 []
     = (Inr [''section1'', ''subsection11''], [])"
    by (simp_all add: slice_to_def)
  from indentation_error [OF four, of "[''section1'', ''subsection11'']" 4]
  have e: "update_keylist [''section1'', ''subsection11''] 4 4 = Inr [''section1'']"
    by (simp add: slice_to_def)
  from four a c e cut width leaf b node(1) d show ?thesis
    by (intro conjI)
qed

section \<open>Enumeration of the leaves\<close>

lemma map_of_distinct_keys_section:
  "distinct_keys t \<Longrightarrow> map_of t key = Some (Section sub) \<Longrightarrow> distinct_keys sub"
  by (induction t rule: distinct_keys.induct) (auto split: if_splits)

lemma distinct_keys_distinct: "distinct_keys t \<Longrightarrow> distinct (map fst t)"
  by (induction t rule: distinct_keys.induct) auto

lemma suboptions_Cons:
  "kl \<in> set (suboptions t) \<Longrightarrow> \<exists>k ks. kl = k # ks \<and> k \<in> set (map fst t)"
  by (induction t rule: suboptions.induct) auto

lemma suboptions_leaf:
  "distinct_keys t \<Longrightarrow> kl \<in> set (suboptions t) \<Longrightarrow> \<exists>v. node_at kl t = Some (Leaf v)"
proof (induction t arbitrary: kl rule: suboptions.induct)
  case 1
  then show ?case by simp
next
  case (2 key s rest)
  show ?case
  proof (cases "kl = [key]")
    case True
    then show ?thesis by simp
  next
    case False
    with "2.prems" have in_rest: "kl \<in> set (suboptions rest)" by simp
    then obtain k ks where kl: "kl = k # ks" and k: "k \<in> set (map fst rest)"
      using suboptions_Cons by blast
    from k "2.prems" have "k \<noteq> key" by auto
    moreover from "2.IH" [of kl] "2.prems" in_rest
    have "\<exists>v. node_at kl rest = Some (Leaf v)" by simp
    ultimately show ?thesis using kl by simp
  qed
next
  case (3 key sub rest)
  show ?case
  proof (cases "kl \<in> set (suboptions rest)")
    case True
    then obtain k ks where kl: "kl = k # ks" and k: "k \<in> set (map fst rest)"
      using suboptions_Cons by blast
    from k "3.prems" have "k \<noteq> key" by auto
    moreover from "3.IH"(2) [of kl] "3.prems" True
    have "\<exists>v. node_at kl rest = Some (Leaf v)" by simp
    ultimately show ?thesis using kl by simp
  next
    case False
    with "3.prems" obtain ks where kl: "kl = key # ks" and ks: "ks \<in> set (suboptions sub)"
      by auto
    from "3.IH"(1) [of ks] "3.prems" ks
    have "\<exists>v. node_at ks sub = Some (Leaf v)" by simp
    then show ?thesis using kl by simp
  qed
qed

lemma leaf_suboptions:
  "node_at kl t = Some (Leaf v) \<Longrightarrow> kl \<in> set (suboptions t)"
proof (induction t arbitrary: kl rule: suboptions.induct)
  case 1
  then show ?case by (cases kl) auto
next
  case (2 key s rest)
  show ?case
  proof (cases kl)
    case Nil
    with "2.prems" show ?thesis by simp
  next
    case (Cons k ks)
    show ?thesis
    proof (cases "k = key")
      case True
      with "2.prems" Cons show ?thesis by (simp split: if_splits)
    next
      case False
      with "2.prems" Cons have "node_at kl rest = Some (Leaf v)" by simp
      from "2.IH" [OF this] show ?thesis by simp
    qed
  qed
next
  case (3 key sub rest)
  show ?case
  proof (cases kl)
    case Nil
    with "3.prems" show ?thesis by simp
  next
    case (Cons k ks)
    show ?thesis
    proof (cases "k = key")
      case True
      with "3.prems" Cons have "node_at ks sub = Some (Leaf v)" by simp
      from "3.IH"(1) [OF this] True Cons show ?thesis by simp
    next
      case False
      with "3.prems" Cons have "node_at kl rest = Some (Leaf v)" by simp
      from "3.IH"(2) [OF this] show ?thesis by simp
    qed
  qed
qed

lemma place_rest:
  "kl \<in> set (suboptions rest) \<Longrightarrow> key \<notin> set (map fst rest) \<Longrightarrow>
   \<exists>i is. place kl ((key, v) # rest) = Suc i # is \<and> place kl rest = i # is"
proof -
  assume "kl \<in> set (suboptions rest)" and notin: "key \<notin> set (map fst rest)"
  then obtain k ks where kl: "kl = k # ks" and k: "k \<in> set (map fst rest)"
    using suboptions_Cons by blast
  from k notin have "k \<noteq> key" by auto
  with kl show ?thesis by simp
qed

lemma sorted_wrt_place_rest:
  assumes "key \<notin> set (map fst rest)"
    and "set kls \<subseteq> set (suboptions rest)"
    and "sorted_wrt (<) (map (\<lambda>kl. place kl rest) kls)"
  shows "sorted_wrt (<) (map (\<lambda>kl. place kl ((key, v) # rest)) kls)"
  using assms(2,3)
proof (induction kls)
  case Nil
  then show ?case by simp
next
  case (Cons a kls)
  have "place a ((key, v) # rest) < place b ((key, v) # rest)" if b: "b \<in> set kls" for b
  proof -
    from Cons.prems b have lt: "place a rest < place b rest" by auto
    from Cons.prems have "a \<in> set (suboptions rest)" by simp
    from place_rest [OF this assms(1)] obtain i "is" where
      a: "place a ((key, v) # rest) = Suc i # is" "place a rest = i # is" by blast
    from Cons.prems b have "b \<in> set (suboptions rest)" by auto
    from place_rest [OF this assms(1)] obtain j js where
      b': "place b ((key, v) # rest) = Suc j # js" "place b rest = j # js" by blast
    from lt a b' show ?thesis by simp
  qed
  with Cons show ?case by simp
qed

lemma suboptions_sorted:
  "distinct_keys t \<Longrightarrow> sorted_wrt (<) (map (\<lambda>kl. place kl t) (suboptions t))"
proof (induction t rule: suboptions.induct)
  case 1
  then show ?case by simp
next
  case (2 key s rest)
  then have notin: "key \<notin> set (map fst rest)" and sorted: "sorted_wrt (<) (map (\<lambda>kl. place kl rest) (suboptions rest))"
    by simp_all
  have "sorted_wrt (<) (map (\<lambda>kl. place kl ((key, Leaf s) # rest)) (suboptions rest))"
    using sorted_wrt_place_rest [OF notin _ sorted] by simp
  moreover have "place [key] ((key, Leaf s) # rest) < place kl ((key, Leaf s) # rest)"
    if "kl \<in> set (suboptions rest)" for kl
    using place_rest [OF that notin, of "Leaf s"] by auto
  ultimately show ?case by simp
next
  case (3 key sub rest)
  then have notin: "key \<notin> set (map fst rest)"
    and sorted: "sorted_wrt (<) (map (\<lambda>kl. place kl rest) (suboptions rest))"
    and sorted_sub: "sorted_wrt (<) (map (\<lambda>kl. place kl sub) (suboptions sub))"
    by simp_all
  have 1: "sorted_wrt (<) (map (\<lambda>kl. place kl ((key, Section sub) # rest)) (suboptions rest))"
    using sorted_wrt_place_rest [OF notin _ sorted] by simp
  have 2: "sorted_wrt (<) (map (\<lambda>kl. place kl ((key, Section sub) # rest)) (map ((#) key) (suboptions sub)))"
    using sorted_sub by (simp add: sorted_wrt_map comp_def)
  have 3: "place (key # ks) ((key, Section sub) # rest) < place kl ((key, Section sub) # rest)"
    if "kl \<in> set (suboptions rest)" for kl ks
    using place_rest [OF that notin, of "Section sub"] by auto
  from 1 2 3 show ?case by (auto simp add: sorted_wrt_append)
qed


text \<open>
  Claim C6.  In a tree whose dictionaries have distinct keys, the keylists that
  \<open>suboptions\<close> returns are exactly the keylists that address a leaf, so every leaf is
  listed and no section is; and they come in depth-first order following insertion order:
  the places of the listed keylists (the insertion indices along each path) increase
  strictly in the lexicographic order, so that no keylist is listed twice.
\<close>

theorem suboptions_preorder:
  "distinct_keys t \<Longrightarrow>
   set (suboptions t) = {kl. \<exists>v. node_at kl t = Some (Leaf v)} \<and>
   sorted_wrt (<) (map (\<lambda>kl. place kl t) (suboptions t)) \<and>
   distinct (suboptions t)"
proof -
  assume dk: "distinct_keys t"
  have "set (suboptions t) = {kl. \<exists>v. node_at kl t = Some (Leaf v)}"
    using suboptions_leaf [OF dk] leaf_suboptions by blast
  moreover note suboptions_sorted [OF dk]
  moreover have "distinct (map (\<lambda>kl. place kl t) (suboptions t))"
    using suboptions_sorted [OF dk] strict_sorted_iff by blast
  then have "distinct (suboptions t)"
    by (simp add: distinct_map)
  ultimately show ?thesis by simp
qed

theorem suboptions_preorder_witness:
  "distinct_keys
     [(''option1'', Leaf ''1''),
      (''section1'', Section [(''option2'', Leaf ''2''),
         (''subsection11'', Section [(''option3'', Leaf ''3'')])])] \<and>
   suboptions
     [(''option1'', Leaf ''1''),
      (''section1'', Section [(''option2'', Leaf ''2''),
         (''subsection11'', Section [(''option3'', Leaf ''3'')])])]
   = [[''option1''], [''section1'', ''option2''], [''section1'', ''subsection11'', ''option3'']] \<and>
   {kl. \<exists>v. node_at kl
     [(''option1'', Leaf ''1''),
      (''section1'', Section [(''option2'', Leaf ''2''),
         (''subsection11'', Section [(''option3'', Leaf ''3'')])])] = Some (Leaf v)}
   = {[''option1''], [''section1'', ''option2''], [''section1'', ''subsection11'', ''option3'']}"
  using suboptions_preorder [of
     "[(''option1'', Leaf ''1''),
      (''section1'', Section [(''option2'', Leaf ''2''),
         (''subsection11'', Section [(''option3'', Leaf ''3'')])])]"]
  by simp

section \<open>Merging\<close>

lemma merged_Section:
  "merged ((k, Section sub) # rest) self =
     merged rest (AList.update k (Section (merged sub (mine_at self k))) self)"
  by (simp add: mine_at_def split: option.split node.split)

lemma mine_at_update:
  "key \<noteq> k \<Longrightarrow> mine_at (AList.update k n self) key = mine_at self key"
  by (simp add: mine_at_def update_conv')

lemma merged_lookup_aux:
  "distinct (map fst config) \<Longrightarrow>
   map_of (merged config self) key =
     (case map_of config key of
        None \<Rightarrow> map_of self key
      | Some (Leaf s) \<Rightarrow> Some (Leaf s)
      | Some (Section sub) \<Rightarrow> Some (Section (merged sub (mine_at self key))))"
proof (induction config arbitrary: self key)
  case Nil
  then show ?case by simp
next
  case (Cons entry rest)
  obtain k n where entry: "entry = (k, n)" by (cases entry)
  from Cons.prems entry have notin: "k \<notin> fst ` set rest" and d: "distinct (map fst rest)"
    by simp_all
  from notin have none: "map_of rest k = None" by (simp add: map_of_eq_None_iff)
  show ?case
  proof (cases n)
    case (Leaf s)
    show ?thesis
    proof (cases "key = k")
      case True
      with entry Leaf none show ?thesis
        by (simp add: Cons.IH [OF d] update_conv')
    next
      case False
      with entry Leaf show ?thesis
        by (simp add: Cons.IH [OF d] update_conv' mine_at_update
              split: option.split node.split)
    qed
  next
    case (Section sub)
    show ?thesis
    proof (cases "key = k")
      case True
      with entry Section none show ?thesis
        by (simp only: merged_Section Cons.IH [OF d]) (simp add: update_conv')
    next
      case False
      with entry Section show ?thesis
        by (simp only: merged_Section Cons.IH [OF d])
           (simp add: update_conv' mine_at_update split: option.split node.split)
    qed
  qed
qed


lemma merged_leaves:
  "distinct_keys config \<Longrightarrow> node_at kl config = Some (Leaf v) \<Longrightarrow>
   node_at kl (merged config self) = Some (Leaf v)"
proof (induction kl arbitrary: config self)
  case Nil
  then show ?case by simp
next
  case (Cons k ks)
  from Cons.prems(1) have d: "distinct (map fst config)" by (rule distinct_keys_distinct)
  show ?case
  proof (cases "map_of config k")
    case None
    with Cons.prems show ?thesis by simp
  next
    case (Some n)
    show ?thesis
    proof (cases n)
      case (Leaf s)
      with Some Cons.prems show ?thesis
        by (simp add: merged_lookup_aux [OF d] split: if_splits)
    next
      case (Section sub)
      with Some Cons.prems have "node_at ks sub = Some (Leaf v)" by simp
      moreover from Section Some Cons.prems have "distinct_keys sub"
        using map_of_distinct_keys_section by blast
      ultimately have "node_at ks (merged sub mine) = Some (Leaf v)" for mine
        using Cons.IH by blast
      with Section Some show ?thesis
        by (simp add: merged_lookup_aux [OF d])
    qed
  qed
qed

lemma merged_keys:
  "distinct (map fst config) \<Longrightarrow> map fst (merged config self) =
     map fst self @ filter (\<lambda>k. k \<notin> set (map fst self)) (map fst config)"
proof (induction config arbitrary: self)
  case Nil
  then show ?case by simp
next
  case (Cons entry rest)
  obtain k n where entry: "entry = (k, n)" by (cases entry)
  from Cons.prems entry have notin: "k \<notin> set (map fst rest)" and d: "distinct (map fst rest)"
    by simp_all
  have filt: "filter (\<lambda>x. x \<noteq> k \<and> P x) (map fst rest) = filter P (map fst rest)" for P
    using notin by (intro filter_cong) auto
  show ?case
  proof (cases n)
    case (Leaf s)
    with entry show ?thesis
      by (simp add: Cons.IH [OF d] update_keys filt)
  next
    case (Section sub)
    with entry show ?thesis
      by (simp only: merged_Section Cons.IH [OF d]) (simp add: update_keys filt)
  qed
qed

section \<open>The recursion budget of the reference pass\<close>

text \<open>
  Claim C2, as stated, fails.  The file below has three leaves, which gives a budget of
  2.  The first leaf holds two references and so takes two nested resolution steps; the
  second leaf holds a reference too.  With one budget for the whole pass the second leaf
  would meet it at 0 and fail; \<open>read_file\<close> resolves all three leaves and returns
  normally.
\<close>

theorem shared_budget_counterexample:
  "read_lines_py [''a = %z%-%z%'', ''b = %z%'', ''z = xyz''] [] CHR ''#'' 4 []
     = (Inr [], [(''a'', Leaf ''%z%-%z%''), (''b'', Leaf ''%z%''), (''z'', Leaf ''xyz'')]) \<and>
   read_file_py failing_library [''a = %z%-%z%'', ''b = %z%'', ''z = xyz''] CHR ''#'' CHR ''%'' 4 []
     = (Inr (), [(''a'', Leaf ''xyz-xyz''), (''b'', Leaf ''xyz''), (''z'', Leaf ''xyz'')]) \<and>
   fst (shared_budget_solve_references failing_library CHR ''%''
          [(''a'', Leaf ''%z%-%z%''), (''b'', Leaf ''%z%''), (''z'', Leaf ''xyz'')])
     = Inl CrossReferenceError"
  by code_simp

lemma solve_budget_mono:
  shows "fst (solve_references_string lib v m c t) \<noteq> Inl CrossReferenceError \<Longrightarrow>
         solve_references_string lib v (m + d) c t = solve_references_string lib v m c t"
    and "fst (solve_reflist lib refs v n c t) \<noteq> Inl CrossReferenceError \<Longrightarrow>
         solve_reflist lib refs v (n + d) c t = solve_reflist lib refs v n c t"
    and "fst (solve_references_keylist lib kl m c t) \<noteq> Inl CrossReferenceError \<Longrightarrow>
         solve_references_keylist lib kl (m + d) c t = solve_references_keylist lib kl m c t"
proof (induction lib v m c t and lib refs v n c t and lib kl m c t
    rule: solve_references_string_solve_reflist_solve_references_keylist.induct)
  case (1 lib v max_rec c t)
  show ?case
  proof (cases "has_reference v c")
    case False
    then show ?thesis by (simp add: solve_references_string.simps)
  next
    case True
    with "1.prems" have pos: "max_rec \<noteq> 0"
      by (auto simp add: solve_references_string.simps split: if_splits)
    with True "1.prems"
    have "fst (solve_reflist lib (extract_references v c) v (max_rec - 1) c t)
            \<noteq> Inl CrossReferenceError"
      by (simp add: solve_references_string.simps)
    from "1.IH" [OF _ pos this] True
    have "solve_reflist lib (extract_references v c) v (max_rec - 1 + d) c t
          = solve_reflist lib (extract_references v c) v (max_rec - 1) c t"
      by simp
    moreover from pos have "max_rec + d - 1 = max_rec - 1 + d" by simp
    ultimately show ?thesis using True pos
      by (simp add: solve_references_string.simps)
  qed
next
  case (2 lib reflist v n c t)
  show ?case
  proof (cases reflist)
    case Nil
    then show ?thesis by (simp add: solve_reflist.simps)
  next
    case (Cons ref rest)
    obtain r t' where r: "solve_references_keylist lib (split_char CHR ''.'' ref) n c t = (r, t')"
      by (cases "solve_references_keylist lib (split_char CHR ''.'' ref) n c t")
    show ?thesis
    proof (cases r)
      case (Inl e)
      with r Cons "2.prems" have "e \<noteq> CrossReferenceError"
        by (simp add: solve_reflist.simps [of _ "ref # rest"])
      with r Inl have "fst (solve_references_keylist lib (split_char CHR ''.'' ref) n c t)
          \<noteq> Inl CrossReferenceError" by simp
      from "2.IH"(1) [OF Cons this] r Inl Cons show ?thesis
        by (simp add: solve_reflist.simps [of _ "ref # rest"])
    next
      case (Inr subvalue)
      with r have ne: "fst (solve_references_keylist lib (split_char CHR ''.'' ref) n c t)
          \<noteq> Inl CrossReferenceError" by simp
      from "2.IH"(1) [OF Cons ne]
      have same: "solve_references_keylist lib (split_char CHR ''.'' ref) (n + d) c t = (Inr subvalue, t')"
        using r Inr by simp
      from "2.prems" Cons r Inr
      have "fst (solve_reflist lib rest (replace (c # ref @ [c]) subvalue v) n c t')
              \<noteq> Inl CrossReferenceError"
        by (simp add: solve_reflist.simps [of _ "ref # rest"])
      from "2.IH"(2) [OF Cons r [symmetric] _ this] Inr
      have "solve_reflist lib rest (replace (c # ref @ [c]) subvalue v) (n + d) c t'
            = solve_reflist lib rest (replace (c # ref @ [c]) subvalue v) n c t'"
        by simp
      with same r Inr Cons show ?thesis
        by (simp add: solve_reflist.simps [of _ "ref # rest"])
    qed
  qed
next
  case (3 lib keylist max_rec c t)
  show ?case
  proof (cases "get lib keylist ''string'' t")
    case (Inl e)
    then show ?thesis by (simp add: solve_references_keylist.simps)
  next
    case (Inr x)
    show ?thesis
    proof (cases x)
      case (StrVal v)
      from "3.prems" Inr StrVal
      have "fst (solve_references_string lib v max_rec c t) \<noteq> Inl CrossReferenceError"
        by (auto simp add: solve_references_keylist.simps split: prod.splits sum.splits)
      from "3.IH" [OF Inr StrVal this] Inr StrVal show ?thesis
        by (simp add: solve_references_keylist.simps)
    qed (use Inr in \<open>simp_all add: solve_references_keylist.simps\<close>)
  qed
qed

text \<open>
  Claim C2, amended.  The budget is an argument, not a state: the pass resolves every
  leaf of the outer enumeration with the same budget, the number of leaves minus 1.  A
  value that holds a reference when the budget is 0 fails with \<open>CrossReferenceError\<close>.
  A value that holds a reference under the budget \<open>n + 1\<close> is resolved by the loop over
  its references, and the loop resolves the first reference and every later one under
  the same budget \<open>n\<close>: what resolving one reference has used is not taken from the
  next.  So the budget bounds the depth of nesting: a resolution that does not end in
  \<open>CrossReferenceError\<close> ends the same way, in the same tree, under every larger
  budget.
\<close>

theorem budget_per_leaf:
  "solve_references lib c t
     = solve_keylistlist lib (suboptions t) (length (suboptions t) - 1) c t \<and>
   solve_keylistlist lib (keylist # rest) max_rec c t
     = (case solve_references_keylist lib keylist max_rec c t of
          (Inl e, t') \<Rightarrow> (Inl e, t')
        | (Inr v', t') \<Rightarrow> solve_keylistlist lib rest max_rec c t') \<and>
   (has_reference v c \<longrightarrow>
      solve_references_string lib v 0 c t = (Inl CrossReferenceError, t)) \<and>
   (has_reference v c \<longrightarrow>
      solve_references_string lib v (Suc n) c t
        = solve_reflist lib (extract_references v c) v n c t) \<and>
   solve_reflist lib [] v n c t = (Inr v, t) \<and>
   solve_reflist lib (ref # refs) v n c t
     = (case solve_references_keylist lib (split_char CHR ''.'' ref) n c t of
          (Inl e, t') \<Rightarrow> (Inl e, t')
        | (Inr subvalue, t') \<Rightarrow>
            solve_reflist lib refs (replace (c # ref @ [c]) subvalue v) n c t') \<and>
   (fst (solve_references_keylist lib keylist max_rec c t) \<noteq> Inl CrossReferenceError \<longrightarrow>
      solve_references_keylist lib keylist (max_rec + d) c t
        = solve_references_keylist lib keylist max_rec c t)"
  using solve_budget_mono(3) [of lib keylist max_rec c t d]
  by (simp add: solve_references_def Let_def solve_references_string.simps
        solve_reflist.simps [of lib "[]"] solve_reflist.simps [of lib "ref # refs"])

theorem budget_per_leaf_witness:
  "has_reference ''%a%-%b%'' CHR ''%'' \<and>
   extract_references ''%a%-%b%'' CHR ''%'' = [''a'', ''b''] \<and>
   solve_references_string failing_library ''%a%-%b%'' 0 CHR ''%''
     [(''v'', Leaf ''%a%-%b%''), (''a'', Leaf ''1''), (''b'', Leaf ''%c%''), (''c'', Leaf ''z'')]
     = (Inl CrossReferenceError,
        [(''v'', Leaf ''%a%-%b%''), (''a'', Leaf ''1''), (''b'', Leaf ''%c%''), (''c'', Leaf ''z'')]) \<and>
   solve_references_string failing_library ''%a%-%b%'' (Suc 1) CHR ''%''
     [(''v'', Leaf ''%a%-%b%''), (''a'', Leaf ''1''), (''b'', Leaf ''%c%''), (''c'', Leaf ''z'')]
     = solve_reflist failing_library [''a'', ''b''] ''%a%-%b%'' 1 CHR ''%''
         [(''v'', Leaf ''%a%-%b%''), (''a'', Leaf ''1''), (''b'', Leaf ''%c%''), (''c'', Leaf ''z'')] \<and>
   solve_references_keylist failing_library (split_char CHR ''.'' ''a'') 1 CHR ''%''
     [(''v'', Leaf ''%a%-%b%''), (''a'', Leaf ''1''), (''b'', Leaf ''%c%''), (''c'', Leaf ''z'')]
     = (Inr ''1'',
        [(''v'', Leaf ''%a%-%b%''), (''a'', Leaf ''1''), (''b'', Leaf ''%c%''), (''c'', Leaf ''z'')]) \<and>
   solve_reflist failing_library [''a'', ''b''] ''%a%-%b%'' 1 CHR ''%''
     [(''v'', Leaf ''%a%-%b%''), (''a'', Leaf ''1''), (''b'', Leaf ''%c%''), (''c'', Leaf ''z'')]
     = solve_reflist failing_library [''b''] ''1-%b%'' 1 CHR ''%''
         [(''v'', Leaf ''%a%-%b%''), (''a'', Leaf ''1''), (''b'', Leaf ''%c%''), (''c'', Leaf ''z'')] \<and>
   solve_reflist failing_library [''b''] ''1-%b%'' 1 CHR ''%''
     [(''v'', Leaf ''%a%-%b%''), (''a'', Leaf ''1''), (''b'', Leaf ''%c%''), (''c'', Leaf ''z'')]
     = (Inr ''1-z'',
        [(''v'', Leaf ''%a%-%b%''), (''a'', Leaf ''1''), (''b'', Leaf ''z''), (''c'', Leaf ''z'')]) \<and>
   solve_references_keylist failing_library [''v''] 2 CHR ''%''
     [(''v'', Leaf ''%a%-%b%''), (''a'', Leaf ''1''), (''b'', Leaf ''%c%''), (''c'', Leaf ''z'')]
     = (Inr ''1-z'',
        [(''v'', Leaf ''1-z''), (''a'', Leaf ''1''), (''b'', Leaf ''z''), (''c'', Leaf ''z'')]) \<and>
   solve_references_keylist failing_library [''v''] (2 + 1) CHR ''%''
     [(''v'', Leaf ''%a%-%b%''), (''a'', Leaf ''1''), (''b'', Leaf ''%c%''), (''c'', Leaf ''z'')]
     = (Inr ''1-z'',
        [(''v'', Leaf ''1-z''), (''a'', Leaf ''1''), (''b'', Leaf ''z''), (''c'', Leaf ''z'')]) \<and>
   fst (solve_references_keylist failing_library [''v''] 1 CHR ''%''
     [(''v'', Leaf ''%a%-%b%''), (''a'', Leaf ''1''), (''b'', Leaf ''%c%''), (''c'', Leaf ''z'')])
     = Inl CrossReferenceError"
proof -
  have ref: "has_reference ''%a%-%b%'' CHR ''%''"
    by code_simp
  have refs: "extract_references ''%a%-%b%'' CHR ''%'' = [''a'', ''b'']"
    by code_simp
  have first: "solve_references_keylist failing_library (split_char CHR ''.'' ''a'') 1 CHR ''%''
     [(''v'', Leaf ''%a%-%b%''), (''a'', Leaf ''1''), (''b'', Leaf ''%c%''), (''c'', Leaf ''z'')]
     = (Inr ''1'',
        [(''v'', Leaf ''%a%-%b%''), (''a'', Leaf ''1''), (''b'', Leaf ''%c%''), (''c'', Leaf ''z'')])"
    by code_simp
  have repl: "replace (CHR ''%'' # ''a'' @ [CHR ''%'']) ''1'' ''%a%-%b%'' = ''1-%b%''"
    by code_simp
  have second: "solve_reflist failing_library [''b''] ''1-%b%'' 1 CHR ''%''
     [(''v'', Leaf ''%a%-%b%''), (''a'', Leaf ''1''), (''b'', Leaf ''%c%''), (''c'', Leaf ''z'')]
     = (Inr ''1-z'',
        [(''v'', Leaf ''%a%-%b%''), (''a'', Leaf ''1''), (''b'', Leaf ''z''), (''c'', Leaf ''z'')])"
    by code_simp
  have two: "solve_references_keylist failing_library [''v''] 2 CHR ''%''
     [(''v'', Leaf ''%a%-%b%''), (''a'', Leaf ''1''), (''b'', Leaf ''%c%''), (''c'', Leaf ''z'')]
     = (Inr ''1-z'',
        [(''v'', Leaf ''1-z''), (''a'', Leaf ''1''), (''b'', Leaf ''z''), (''c'', Leaf ''z'')])"
    by code_simp
  have one: "fst (solve_references_keylist failing_library [''v''] 1 CHR ''%''
     [(''v'', Leaf ''%a%-%b%''), (''a'', Leaf ''1''), (''b'', Leaf ''%c%''), (''c'', Leaf ''z'')])
     = Inl CrossReferenceError"
    by code_simp
  from ref refs first repl second two one
    budget_per_leaf [of failing_library "CHR ''%''"
      "[(''v'', Leaf ''%a%-%b%''), (''a'', Leaf ''1''), (''b'', Leaf ''%c%''), (''c'', Leaf ''z'')]"
      "[''v'']" "[]" 2 "''%a%-%b%''" 1 "''a''" "[''b'']" 1]
  show ?thesis by simp
qed

section \<open>Round trip of the nested convention\<close>

lemma indent_width:
  "0 < indentation \<Longrightarrow> int (nat (int depth * indentation)) = int depth * indentation"
  by simp

lemma update_keylist_indent:
  "0 < indentation \<Longrightarrow> depth \<le> length keylist \<Longrightarrow>
   update_keylist keylist (int depth * indentation) indentation = Inr (take depth keylist)"
  by (simp add: update_keylist_def slice_to_def)

lemma strip_leaf_line_hd:
  assumes "key \<noteq> []" "\<not> whitespace (hd key)"
  shows "hd (strip (replicate n CHR '' '' @ key @ '' = '' @ v)) = hd key"
proof -
  define b where "b = rev (takeWhile whitespace (rev ('' '' @ v)))"
  define m where "m = rev (dropWhile whitespace (rev ('' '' @ v)))"
  have split: "'' '' @ v = m @ b"
    unfolding b_def m_def by (metis rev_append rev_rev_ident takeWhile_dropWhile_id)
  have allb: "list_all whitespace b"
    unfolding b_def by (simp add: list_all_iff) (meson set_takeWhileD)
  have lastm: "m \<noteq> [] \<Longrightarrow> \<not> whitespace (last m)"
    unfolding m_def by (metis hd_dropWhile last_rev rev_is_Nil_conv)
  have "replicate n CHR '' '' @ key @ '' = '' @ v
        = replicate n CHR '' '' @ (key @ '' ='' @ m) @ b"
    using split by simp
  moreover have "strip (replicate n CHR '' '' @ (key @ '' ='' @ m) @ b) = key @ '' ='' @ m"
    using assms allb lastm by (intro strip_core) (simp_all add: list_all_iff)
  ultimately show ?thesis using assms by simp
qed

lemma leaf_key_line:
  assumes "legal_key cc key"
  shows "leaf_key (replicate n CHR '' '' @ key @ '' = '' @ v) = key"
proof -
  from assms have all: "list_all (\<lambda>c. c \<noteq> CHR ''='') (replicate n CHR '' '' @ key @ '' '')"
    by (auto simp add: legal_key_def list_all_iff)
  have "takeWhile (\<lambda>c. c \<noteq> CHR ''='') ((replicate n CHR '' '' @ key @ '' '') @ CHR ''='' # '' '' @ v)
        = replicate n CHR '' '' @ key @ '' ''"
    using all by (intro takeWhile_stop) simp_all
  moreover have "strip (replicate n CHR '' '' @ key @ '' '') = key"
    using assms by (intro strip_core) (simp_all add: legal_key_def list_all_iff)
  ultimately show ?thesis by (simp add: leaf_key_def)
qed

lemma leaf_value_line:
  assumes "legal_key cc key" and "legal_value cc rc v"
  shows "leaf_value (replicate n CHR '' '' @ key @ '' = '' @ v) = v"
proof -
  from assms have all: "list_all (\<lambda>c. c \<noteq> CHR ''='') (replicate n CHR '' '' @ key @ '' '')"
    by (auto simp add: legal_key_def list_all_iff)
  have "dropWhile (\<lambda>c. c \<noteq> CHR ''='') ((replicate n CHR '' '' @ key @ '' '') @ CHR ''='' # '' '' @ v)
        = CHR ''='' # '' '' @ v"
    using all by (intro dropWhile_stop) simp_all
  moreover have "strip ('' '' @ v) = v"
  proof (cases "v = []")
    case True
    then show ?thesis by (simp add: strip_blank)
  next
    case False
    with assms(2) have "strip ('' '' @ v @ []) = v"
      by (intro strip_core) (simp_all add: legal_value_def)
    then show ?thesis by simp
  qed
  ultimately show ?thesis by (simp add: leaf_value_def)
qed

lemma read_line_py_leaf:
  assumes key: "legal_key cc key" and v: "legal_value cc rc v"
    and cc: "legal_comment_char cc"
    and ind: "0 < indentation" and d: "depth \<le> length keylist"
  shows "read_line_py (hd (write_tree_leaf_line_py depth indentation key v))
           keylist cc indentation t =
         (case set_value (take depth keylist @ [key]) v True t of
            (Inl e, t') \<Rightarrow> (Inl e, t')
          | (Inr u, t') \<Rightarrow> (Inr (take depth keylist), t'))"
proof -
  define n where "n = nat (int depth * indentation)"
  define line where "line = replicate n CHR '' '' @ key @ '' = '' @ v"
  have n: "int n = int depth * indentation"
    using ind by (simp add: n_def)
  have no_comment: "takeWhile (\<lambda>c. c \<noteq> cc) line = line"
    using key v cc
    by (auto simp add: takeWhile_eq_all_conv line_def legal_key_def legal_value_def
          legal_comment_char_def)
  have not_blank: "line \<noteq> []" "\<not> isspace line"
    by (auto simp add: line_def isspace_def list_all_iff)
  have "hd (strip line) = hd key"
    unfolding line_def using key by (intro strip_leaf_line_hd) (simp_all add: legal_key_def)
  with key have not_node: "\<not> is_tree_node line"
    by (simp add: is_tree_node_def Let_def legal_key_def)
  have lk: "leaf_key line = key"
    unfolding line_def using key by (rule leaf_key_line)
  have lv: "leaf_value line = v"
    unfolding line_def using key v by (rule leaf_value_line)
  have "find_str key line = int n"
    unfolding line_def using key
    by (intro find_str_indent) (auto simp add: legal_key_def)
  then have upd: "update_keylist keylist (find_str key line) indentation
                   = Inr (take depth keylist)"
    using update_keylist_indent [OF ind d] n by simp
  have eq: "hd (write_tree_leaf_line_py depth indentation key v) = line"
    by (simp add: write_tree_leaf_line_py_def line_def n_def)
  show ?thesis
    unfolding eq read_line_py_def Let_def no_comment
    using not_blank not_node lk lv upd
    by (simp add: extract_tree_leaf_py_def Let_def)
qed

lemma read_line_py_node:
  assumes key: "legal_key cc key"
    and cc: "legal_comment_char cc"
    and ind: "0 < indentation" and d: "depth \<le> length keylist"
  shows "read_line_py (hd (write_tree_node_line_py depth indentation key))
           keylist cc indentation t = (Inr (take depth keylist @ [key]), t)"
proof -
  define n where "n = nat (int depth * indentation)"
  define line where "line = replicate n CHR '' '' @ CHR ''['' # key @ '']''"
  have n: "int n = int depth * indentation"
    using ind by (simp add: n_def)
  have no_comment: "takeWhile (\<lambda>c. c \<noteq> cc) line = line"
    using key cc
    by (auto simp add: takeWhile_eq_all_conv line_def legal_key_def legal_comment_char_def)
  have not_blank: "line \<noteq> []" "\<not> isspace line"
    by (auto simp add: line_def isspace_def list_all_iff)
  have "strip (replicate n CHR '' '' @ (CHR ''['' # key @ '']'') @ []) = CHR ''['' # key @ '']''"
    by (intro strip_core) (simp_all add: list_all_iff)
  then have st: "strip line = CHR ''['' # key @ '']''"
    by (simp add: line_def)
  with key have node: "is_tree_node line"
    by (simp add: is_tree_node_def Let_def legal_key_def)
  have k: "butlast (tl (strip line)) = key"
    by (simp add: st butlast_append)
  have "find_str key line = int n + 1"
    unfolding line_def using key
    by (intro find_str_bracket) (auto simp add: legal_key_def)
  then have upd: "update_keylist keylist (find_str key line - 1) indentation
                   = Inr (take depth keylist)"
    using update_keylist_indent [OF ind d] n by simp
  have eq: "hd (write_tree_node_line_py depth indentation key) = line"
    by (simp add: write_tree_node_line_py_def line_def n_def)
  show ?thesis
    unfolding eq read_line_py_def Let_def no_comment
    using not_blank node k upd
    by (simp add: extract_tree_node_py_def Let_def)
qed


lemma read_lines_py_append:
  "read_lines_py (ls1 @ ls2) kl cc ind t =
     (case read_lines_py ls1 kl cc ind t of
        (Inl e, t') \<Rightarrow> (Inl e, t')
      | (Inr kl', t') \<Rightarrow> read_lines_py ls2 kl' cc ind t')"
  by (induction ls1 arbitrary: kl t) (auto split: prod.splits sum.splits)

lemma set_leaves_append:
  "set_leaves (a @ b) t =
     (case set_leaves a t of
        (Inl e, t') \<Rightarrow> (Inl e, t')
      | (Inr u, t') \<Rightarrow> set_leaves b t')"
  by (induction a arbitrary: t) (auto split: prod.splits sum.splits)

lemma set_leaves_append_Inr:
  "set_leaves (a @ b) t = (Inr (), t') \<Longrightarrow>
   \<exists>t1. set_leaves a t = (Inr (), t1) \<and> set_leaves b t1 = (Inr (), t')"
  by (auto simp add: set_leaves_append split: prod.splits sum.splits)

lemma parse_written:
  assumes cc: "legal_comment_char cc"
  shows "legal_tree cc rc es \<Longrightarrow> 0 < indentation \<Longrightarrow> depth \<le> length kl \<Longrightarrow>
     set_leaves (map (\<lambda>(p, v). (take depth kl @ p, v)) (leaves es)) t = (Inr (), t') \<Longrightarrow>
     \<exists>kl'. read_lines_py (write_tree_py es depth indentation) kl cc indentation t
             = (Inr kl', t') \<and>
           take depth kl' = take depth kl \<and> depth \<le> length kl'"
proof (induction es depth indentation arbitrary: kl t t' rule: write_tree_py.induct)
  case (1 depth indentation)
  then show ?case by auto
next
  case (2 key sub rest depth indentation)
  let ?kl1 = "take depth kl @ [key]"
  note ind = "2.prems"(2)
  from "2.prems"(1) have key: "legal_key cc key" and lsub: "legal_tree cc rc sub"
    and lrest: "legal_tree cc rc rest"
    by simp_all
  from "2.prems"(3) have len1: "depth + 1 \<le> length ?kl1" and take1: "take (depth + 1) ?kl1 = ?kl1"
    by simp_all
  have pre: "map (\<lambda>(p, v). (take depth kl @ p, v)) (map (\<lambda>(p, v). (key # p, v)) (leaves sub))
             = map (\<lambda>(p, v). (take (depth + 1) ?kl1 @ p, v)) (leaves sub)"
    unfolding take1 by (simp add: case_prod_beta)
  from "2.prems"(4) have
    "set_leaves
       (map (\<lambda>(p, v). (take depth kl @ p, v)) (map (\<lambda>(p, v). (key # p, v)) (leaves sub))
        @ map (\<lambda>(p, v). (take depth kl @ p, v)) (leaves rest)) t = (Inr (), t')"
    by simp
  then have
    "set_leaves
       (map (\<lambda>(p, v). (take (depth + 1) ?kl1 @ p, v)) (leaves sub)
        @ map (\<lambda>(p, v). (take depth kl @ p, v)) (leaves rest)) t = (Inr (), t')"
    unfolding pre .
  from set_leaves_append_Inr [OF this] obtain t1 where
    s1: "set_leaves (map (\<lambda>(p, v). (take (depth + 1) ?kl1 @ p, v)) (leaves sub)) t = (Inr (), t1)"
    and s2: "set_leaves (map (\<lambda>(p, v). (take depth kl @ p, v)) (leaves rest)) t1 = (Inr (), t')"
    by blast
  from "2.IH"(1) [OF lsub ind len1 s1] obtain kl2 where
    r1: "read_lines_py (write_tree_py sub (depth + 1) indentation) ?kl1 cc indentation t
           = (Inr kl2, t1)"
    and take2: "take (depth + 1) kl2 = take (depth + 1) ?kl1" and len2: "depth + 1 \<le> length kl2"
    by blast
  have "take depth (take (depth + 1) kl2) = take depth (take (depth + 1) ?kl1)"
    using take2 by simp
  with "2.prems"(3) have take2': "take depth kl2 = take depth kl"
    by (simp add: min_def)
  from len2 have len2': "depth \<le> length kl2" by simp
  from s2 take2' have
    "set_leaves (map (\<lambda>(p, v). (take depth kl2 @ p, v)) (leaves rest)) t1 = (Inr (), t')"
    by simp
  from "2.IH"(2) [OF lrest ind len2' this] obtain kl' where
    r2: "read_lines_py (write_tree_py rest depth indentation) kl2 cc indentation t1
           = (Inr kl', t')"
    and take3: "take depth kl' = take depth kl2" and len3: "depth \<le> length kl'"
    by blast
  define line where "line = hd (write_tree_node_line_py depth indentation key)"
  have node: "read_line_py line kl cc indentation t = (Inr ?kl1, t)"
    unfolding line_def using key cc ind "2.prems"(3) by (rule read_line_py_node)
  have "write_tree_node_line_py depth indentation key = [line]"
    by (simp add: line_def write_tree_node_line_py_def)
  then have "read_lines_py (write_tree_py ((key, Section sub) # rest) depth indentation) kl cc
          indentation t = (Inr kl', t')"
    using node r1 r2 by (simp add: read_lines_py_append)
  with take3 take2' len3 show ?case by auto
next
  case (3 key v rest depth indentation)
  note ind = "3.prems"(2)
  from "3.prems"(1) have key: "legal_key cc key" and lv: "legal_value cc rc v"
    and lrest: "legal_tree cc rc rest"
    by simp_all
  from "3.prems"(4) obtain t1 where
    s1: "set_value (take depth kl @ [key]) v True t = (Inr (), t1)"
    and s2: "set_leaves (map (\<lambda>(p, v). (take depth kl @ p, v)) (leaves rest)) t1 = (Inr (), t')"
    by (auto split: prod.splits sum.splits)
  have len: "depth \<le> length (take depth kl)"
    using "3.prems"(3) by simp
  from s2 have
    "set_leaves (map (\<lambda>(p, v). (take depth (take depth kl) @ p, v)) (leaves rest)) t1
       = (Inr (), t')"
    by simp
  from "3.IH" [OF lrest ind len this] obtain kl' where
    r2: "read_lines_py (write_tree_py rest depth indentation) (take depth kl) cc indentation t1
           = (Inr kl', t')"
    and take3: "take depth kl' = take depth (take depth kl)" and len3: "depth \<le> length kl'"
    by blast
  define line where "line = hd (write_tree_leaf_line_py depth indentation key v)"
  have leaf: "read_line_py line kl cc indentation t = (Inr (take depth kl), t1)"
    unfolding line_def
    using read_line_py_leaf [OF key lv cc ind "3.prems"(3), of t] s1 by simp
  have "write_tree_leaf_line_py depth indentation key v = [line]"
    by (simp add: line_def write_tree_leaf_line_py_def)
  then have "read_lines_py (write_tree_py ((key, Leaf v) # rest) depth indentation) kl cc
          indentation t = (Inr kl', t')"
    using leaf r2 by (simp add: read_lines_py_append)
  with take3 len3 show ?case by auto
qed


lemma update_absent: "map_of t k = None \<Longrightarrow> AList.update k x t = t @ [(k, x)]"
  by (induction t) (auto split: if_splits)

lemma update_appended:
  "map_of t k = None \<Longrightarrow> AList.update k y (t @ [(k, x)]) = t @ [(k, y)]"
  by (induction t) (auto split: if_splits)

lemma map_of_appended: "map_of t k = None \<Longrightarrow> map_of (t @ [(k, x)]) k = Some x"
  by (induction t) (auto split: if_splits)

lemma set_value_into_section:
  "map_of t k = Some (Section sub) \<Longrightarrow> p \<noteq> [] \<Longrightarrow>
   set_value (k # p) v u t =
     (case set_value p v u sub of (r, sub') \<Rightarrow> (r, AList.update k (Section sub') t))"
  by (cases p) simp_all

lemma set_value_new_section:
  "map_of t k = None \<Longrightarrow> p \<noteq> [] \<Longrightarrow>
   set_value (k # p) v True t =
     (case set_value p v True [] of (r, sub') \<Rightarrow> (r, t @ [(k, Section sub')]))"
  by (cases p)
     (simp_all add: update_absent update_appended map_of_appended del: map_of_append
        split: prod.splits)

lemma set_leaves_into_section:
  "map_of t k = Some (Section sub) \<Longrightarrow> list_all (\<lambda>(p, v). p \<noteq> []) lvs \<Longrightarrow>
   set_leaves (map (\<lambda>(p, v). (k # p, v)) lvs) t =
     (case set_leaves lvs sub of (r, sub') \<Rightarrow> (r, AList.update k (Section sub') t))"
proof (induction lvs arbitrary: t sub)
  case Nil
  then show ?case by (simp add: update_triv)
next
  case (Cons lv lvs)
  obtain p v where lv: "lv = (p, v)" by (cases lv)
  with Cons.prems have p: "p \<noteq> []" and rest: "list_all (\<lambda>(p, v). p \<noteq> []) lvs"
    by simp_all
  obtain r sub1 where s: "set_value p v True sub = (r, sub1)"
    by (cases "set_value p v True sub")
  have step: "set_value (k # p) v True t = (r, AList.update k (Section sub1) t)"
    using set_value_into_section [OF Cons.prems(1) p] s by simp
  show ?case
  proof (cases r)
    case (Inl e)
    with lv s step show ?thesis by simp
  next
    case (Inr u)
    have "map_of (AList.update k (Section sub1) t) k = Some (Section sub1)"
      by (simp add: update_conv')
    from Cons.IH [OF this rest] Inr lv s step show ?thesis
      by (simp split: prod.splits)
  qed
qed

lemma set_leaves_new_section:
  assumes "map_of t k = None" and "lvs \<noteq> []" and "list_all (\<lambda>(p, v). p \<noteq> []) lvs"
  shows "set_leaves (map (\<lambda>(p, v). (k # p, v)) lvs) t =
     (case set_leaves lvs [] of (r, sub') \<Rightarrow> (r, t @ [(k, Section sub')]))"
proof -
  from assms(2) obtain p v rest where lvs: "lvs = (p, v) # rest"
    by (cases lvs) auto
  with assms(3) have p: "p \<noteq> []" and rest: "list_all (\<lambda>(p, v). p \<noteq> []) rest"
    by simp_all
  obtain r sub1 where s: "set_value p v True [] = (r, sub1)"
    by (cases "set_value p v True []")
  have step: "set_value (k # p) v True t = (r, t @ [(k, Section sub1)])"
    using set_value_new_section [OF assms(1) p] s by simp
  show ?thesis
  proof (cases r)
    case (Inl e)
    with lvs s step show ?thesis by simp
  next
    case (Inr u)
    have "map_of (t @ [(k, Section sub1)]) k = Some (Section sub1)"
      using assms(1) by (rule map_of_appended)
    from set_leaves_into_section [OF this rest] Inr lvs s step show ?thesis
      by (simp add: update_appended [OF assms(1)] split: prod.splits)
  qed
qed

lemma leaves_paths: "list_all (\<lambda>(p, v). p \<noteq> []) (leaves t)"
  by (induction t rule: leaves.induct) (auto simp add: list_all_iff)

lemma leaves_nonempty: "legal_tree cc rc t \<Longrightarrow> t \<noteq> [] \<Longrightarrow> leaves t \<noteq> []"
  by (induction t rule: leaves.induct) auto

lemma build_by_sets:
  "distinct_keys es \<Longrightarrow> legal_tree cc rc es \<Longrightarrow>
   set (map fst done) \<inter> set (map fst es) = {} \<Longrightarrow>
   set_leaves (leaves es) done = (Inr (), done @ es)"
proof (induction es arbitrary: "done" rule: leaves.induct)
  case 1
  then show ?case by simp
next
  case (2 key v rest)
  from "2.prems"(3) have none: "map_of done key = None"
    by (auto simp add: map_of_eq_None_iff)
  from "2.prems" have "set (map fst (done @ [(key, Leaf v)])) \<inter> set (map fst rest) = {}"
    by auto
  from "2.IH" [OF _ _ this] "2.prems" none show ?case
    by (simp add: update_absent)
next
  case (3 key sub rest)
  from "3.prems"(3) have none: "map_of done key = None"
    by (auto simp add: map_of_eq_None_iff)
  from "3.prems" have ne: "leaves sub \<noteq> []"
    using leaves_nonempty by auto
  from "3.IH"(1) [of "[]"] "3.prems" have sub: "set_leaves (leaves sub) [] = (Inr (), sub)"
    by simp
  have first: "set_leaves (map (\<lambda>(p, v). (key # p, v)) (leaves sub)) done
                = (Inr (), done @ [(key, Section sub)])"
    using set_leaves_new_section [OF none ne leaves_paths] sub by simp
  from "3.prems" have "set (map fst (done @ [(key, Section sub)])) \<inter> set (map fst rest) = {}"
    by auto
  from "3.IH"(2) [OF _ _ this] "3.prems" first show ?case
    by (simp add: set_leaves_append)
qed


lemma get_leaf:
  "node_at kl t = Some (Leaf v) \<Longrightarrow> get lib kl ''string'' t = Inr (StrVal v)"
proof (induction kl arbitrary: t)
  case Nil
  then show ?case by simp
next
  case (Cons k ks)
  then show ?case
    by (cases ks)
       (auto simp add: string_conversion_def split: option.splits node.splits if_splits)
qed

lemma set_value_same:
  "node_at kl t = Some (Leaf v) \<Longrightarrow> set_value kl v u t = (Inr (), t)"
proof (induction kl arbitrary: t)
  case Nil
  then show ?case by simp
next
  case (Cons k ks)
  then show ?case
    by (cases ks)
       (auto simp add: update_triv split: option.splits node.splits if_splits)
qed

lemma legal_tree_map_of_leaf:
  "legal_tree cc rc t \<Longrightarrow> map_of t k = Some (Leaf v) \<Longrightarrow> legal_value cc rc v"
  by (induction t rule: legal_tree.induct) (auto split: if_splits)

lemma legal_tree_map_of_section:
  "legal_tree cc rc t \<Longrightarrow> map_of t k = Some (Section sub) \<Longrightarrow> legal_tree cc rc sub"
  by (induction t rule: legal_tree.induct) (auto split: if_splits)

lemma legal_tree_leaf_value:
  "legal_tree cc rc t \<Longrightarrow> node_at kl t = Some (Leaf v) \<Longrightarrow> legal_value cc rc v"
proof (induction kl arbitrary: t)
  case Nil
  then show ?case by simp
next
  case (Cons k ks)
  show ?case
  proof (cases "map_of t k")
    case None
    with Cons.prems show ?thesis by simp
  next
    case (Some n)
    show ?thesis
    proof (cases n)
      case (Leaf s)
      with Some Cons.prems have "s = v" by (simp split: if_splits)
      with Leaf Some Cons.prems(1) show ?thesis
        using legal_tree_map_of_leaf by blast
    next
      case (Section sub)
      with Some Cons.prems have "node_at ks sub = Some (Leaf v)" by simp
      moreover from Section Some Cons.prems(1) have "legal_tree cc rc sub"
        using legal_tree_map_of_section by blast
      ultimately show ?thesis using Cons.IH by blast
    qed
  qed
qed

lemma solve_leaf_without_reference:
  assumes "node_at kl t = Some (Leaf v)" and "rc \<notin> set v"
  shows "solve_references_keylist lib kl max_rec rc t = (Inr v, t)"
  using assms
  by (simp add: solve_references_keylist.simps solve_references_string.simps
        has_reference_def get_leaf set_value_same)

lemma solve_keylistlist_without_reference:
  "list_all (\<lambda>kl. \<exists>v. node_at kl t = Some (Leaf v) \<and> rc \<notin> set v) kls \<Longrightarrow>
   solve_keylistlist lib kls max_rec rc t = (Inr (), t)"
proof (induction kls)
  case Nil
  then show ?case by simp
next
  case (Cons kl kls)
  then obtain v where "node_at kl t = Some (Leaf v)" "rc \<notin> set v" by auto
  from solve_leaf_without_reference [OF this] Cons show ?case by simp
qed

lemma solve_references_legal:
  assumes "distinct_keys t" and "legal_tree cc rc t"
  shows "solve_references lib rc t = (Inr (), t)"
proof -
  have "list_all (\<lambda>kl. \<exists>v. node_at kl t = Some (Leaf v) \<and> rc \<notin> set v) (suboptions t)"
    unfolding list_all_iff
  proof
    fix kl assume "kl \<in> set (suboptions t)"
    with assms(1) obtain v where v: "node_at kl t = Some (Leaf v)"
      using suboptions_leaf by blast
    with assms(2) have "legal_value cc rc v" by (rule legal_tree_leaf_value)
    with v show "\<exists>v. node_at kl t = Some (Leaf v) \<and> rc \<notin> set v"
      by (auto simp add: legal_value_def)
  qed
  then show ?thesis
    by (simp add: solve_references_def Let_def solve_keylistlist_without_reference)
qed

lemma written_roundtrip:
  assumes "0 < indentation" and "legal_comment_char cc" and "distinct_keys t"
    and "legal_tree cc rc t"
  shows "read_file_py lib (tofile_py t indentation) cc rc indentation [] = (Inr (), t) \<and>
     tofile_py (snd (read_file_py lib (tofile_py t indentation) cc rc indentation []))
       indentation = tofile_py t indentation"
proof -
  have "set_leaves (leaves t) [] = (Inr (), [] @ t)"
    using assms(3,4) by (intro build_by_sets) simp_all
  then have "set_leaves (map (\<lambda>(p, v). (take 0 [] @ p, v)) (leaves t)) [] = (Inr (), t)"
    by simp
  from parse_written [OF assms(2,4,1) _ this] obtain kl' where
    "read_lines_py (write_tree_py t 0 indentation) [] cc indentation [] = (Inr kl', t)"
    by auto
  then have "read_file_py lib (tofile_py t indentation) cc rc indentation [] = (Inr (), t)"
    using solve_references_legal [OF assms(3,4)]
    by (simp add: read_file_py_def tofile_py_def)
  then show ?thesis by simp
qed

lemma takeWhile_whitespace_all: "list_all whitespace (takeWhile whitespace s)"
  by (simp add: list_all_iff) (meson set_takeWhileD)

lemma indent_unique:
  assumes "a @ x = a' @ x'" and "list_all whitespace a" and "list_all whitespace a'"
    and "x \<noteq> []" and "\<not> whitespace (hd x)" and "x' \<noteq> []" and "\<not> whitespace (hd x')"
  shows "a = a' \<and> x = x'"
proof -
  from assms(4,5) obtain y ys where x: "x = y # ys" "\<not> whitespace y" by (cases x) auto
  from assms(6,7) obtain y' ys' where x': "x' = y' # ys'" "\<not> whitespace y'" by (cases x') auto
  have "takeWhile whitespace (a @ y # ys) = a"
    using assms(2) x(2) by (rule takeWhile_stop)
  moreover have "takeWhile whitespace (a' @ y' # ys') = a'"
    using assms(3) x'(2) by (rule takeWhile_stop)
  ultimately have "a = a'" using assms(1) x(1) x'(1) by simp
  with assms(1) show ?thesis by simp
qed

lemma first_eq_unique:
  assumes "a @ CHR ''='' # b = a' @ CHR ''='' # b'"
    and "CHR ''='' \<notin> set a" and "CHR ''='' \<notin> set a'"
  shows "a = a' \<and> b = b'"
proof -
  have "takeWhile (\<lambda>c. c \<noteq> CHR ''='') (a @ CHR ''='' # b) = a"
    using assms(2) by (intro takeWhile_stop) (auto simp add: list_all_iff)
  moreover have "takeWhile (\<lambda>c. c \<noteq> CHR ''='') (a' @ CHR ''='' # b') = a'"
    using assms(3) by (intro takeWhile_stop) (auto simp add: list_all_iff)
  ultimately have "a = a'" using assms(1) by simp
  with assms(1) show ?thesis by simp
qed

lemma set_strip: "set (strip s) \<subseteq> set s"
proof -
  have "set (strip s) \<subseteq> set (dropWhile whitespace s)"
    unfolding strip_def by (metis set_dropWhileD set_rev subsetI)
  also have "\<dots> \<subseteq> set s"
    by (meson set_dropWhileD subsetI)
  finally show ?thesis .
qed

lemma strip_hd: "strip s \<noteq> [] \<Longrightarrow> \<not> whitespace (hd (strip s))"
  using strip_decompose by blast

lemma leaf_key_no_eq: "CHR ''='' \<in> set line \<Longrightarrow> CHR ''='' \<notin> set (leaf_key line)"
proof -
  assume "CHR ''='' \<in> set line"
  then have "leaf_key line = strip (takeWhile (\<lambda>c. c \<noteq> CHR ''='') line)"
    by (simp add: leaf_key_def)
  moreover have "CHR ''='' \<notin> set (takeWhile (\<lambda>c. c \<noteq> CHR ''='') line)"
    using set_takeWhileD [of "CHR ''=''" "\<lambda>c. c \<noteq> CHR ''=''" line] by blast
  ultimately show ?thesis using set_strip by fastforce
qed


lemma strip_empty_blank:
  assumes "strip s = []"
  shows "list_all whitespace s"
proof -
  define m where "m = dropWhile whitespace s"
  have "strip s = rev (dropWhile whitespace (rev m))"
    by (simp add: strip_def m_def)
  with assms have "dropWhile whitespace (rev m) = []" by simp
  then have allm: "list_all whitespace m"
    by (simp add: list_all_iff)
  have "m = []"
  proof (rule ccontr)
    assume "m \<noteq> []"
    then have "\<not> whitespace (hd m)" unfolding m_def by (rule hd_dropWhile)
    with \<open>m \<noteq> []\<close> allm show False by (cases m) auto
  qed
  then show ?thesis
    unfolding m_def by (simp add: list_all_iff)
qed

lemma written_leaf_facts:
  fixes n :: nat
  assumes key: "legal_key cc key" and v: "legal_value cc rc v" and cc: "legal_comment_char cc"
  defines "c \<equiv> replicate n CHR '' '' @ key @ '' = '' @ v"
  shows "takeWhile (\<lambda>x. x \<noteq> cc) c = c" and "\<not> is_tree_node c"
    and "leaf_key c = key" and "leaf_value c = v"
    and "takeWhile whitespace c = replicate n CHR '' ''"
    and "CHR ''='' \<in> set c" and "c \<noteq> []" and "\<not> isspace c"
proof -
  show "takeWhile (\<lambda>x. x \<noteq> cc) c = c"
    using key v cc
    by (auto simp add: takeWhile_eq_all_conv c_def legal_key_def legal_value_def
          legal_comment_char_def)
  have "hd (strip c) = hd key"
    unfolding c_def using key by (intro strip_leaf_line_hd) (simp_all add: legal_key_def)
  with key show "\<not> is_tree_node c"
    by (simp add: is_tree_node_def Let_def legal_key_def)
  show "leaf_key c = key"
    unfolding c_def using key by (rule leaf_key_line)
  show "leaf_value c = v"
    unfolding c_def using key v by (rule leaf_value_line)
  from key obtain y ys where k: "key = y # ys" "\<not> whitespace y"
    by (cases key) (auto simp add: legal_key_def)
  have "takeWhile whitespace (replicate n CHR '' '' @ y # (ys @ '' = '' @ v))
          = replicate n CHR '' ''"
    using k(2) by (intro takeWhile_stop) (simp_all add: list_all_iff)
  with k(1) show "takeWhile whitespace c = replicate n CHR '' ''"
    by (simp add: c_def)
  show "CHR ''='' \<in> set c" "c \<noteq> []" "\<not> isspace c"
    by (auto simp add: c_def isspace_def list_all_iff)
qed

lemma written_node_facts:
  fixes n :: nat
  assumes key: "legal_key cc key" and cc: "legal_comment_char cc"
  defines "c \<equiv> replicate n CHR '' '' @ CHR ''['' # key @ '']''"
  shows "takeWhile (\<lambda>x. x \<noteq> cc) c = c" and "is_tree_node c"
    and "strip c = CHR ''['' # key @ '']''"
    and "takeWhile whitespace c = replicate n CHR '' ''"
    and "c \<noteq> []" and "\<not> isspace c"
proof -
  show "takeWhile (\<lambda>x. x \<noteq> cc) c = c"
    using key cc
    by (auto simp add: takeWhile_eq_all_conv c_def legal_key_def legal_comment_char_def)
  have "strip (replicate n CHR '' '' @ (CHR ''['' # key @ '']'') @ []) = CHR ''['' # key @ '']''"
    by (intro strip_core) (simp_all add: list_all_iff)
  then show st: "strip c = CHR ''['' # key @ '']''"
    by (simp add: c_def)
  with key show "is_tree_node c"
    by (simp add: is_tree_node_def Let_def legal_key_def)
  have "takeWhile whitespace (replicate n CHR '' '' @ CHR ''['' # (key @ '']''))
          = replicate n CHR '' ''"
    by (intro takeWhile_stop) (simp_all add: list_all_iff)
  then show "takeWhile whitespace c = replicate n CHR '' ''"
    by (simp add: c_def)
  show "c \<noteq> []" "\<not> isspace c"
    by (auto simp add: c_def isspace_def list_all_iff)
qed

lemma normal_line_None:
  "normal_line cc line0 = None \<Longrightarrow> read_line_py line0 kl cc ind t = (Inr kl, t)"
  by (auto simp add: normal_line_def read_line_py_def Let_def split: if_splits)


lemma normal_line_Some:
  assumes "normal_line cc line0 = Some c"
  defines "line \<equiv> takeWhile (\<lambda>x. x \<noteq> cc) line0"
  shows "line \<noteq> []" and "\<not> isspace line" and "strip line \<noteq> []"
    and "\<not> is_tree_node line \<and> CHR ''='' \<in> set line \<Longrightarrow>
         c = takeWhile whitespace line @ leaf_key line @ '' = '' @ leaf_value line"
    and "\<not> (\<not> is_tree_node line \<and> CHR ''='' \<in> set line) \<Longrightarrow>
         c = takeWhile whitespace line @ strip line"
proof -
  from assms(1) show ne: "line \<noteq> []" and ns: "\<not> isspace line"
    by (auto simp add: normal_line_def Let_def line_def split: if_splits)
  show "strip line \<noteq> []"
  proof
    assume "strip line = []"
    then have "list_all whitespace line" by (rule strip_empty_blank)
    with ne ns show False by (simp add: isspace_def)
  qed
  from assms(1) ne ns show "\<not> is_tree_node line \<and> CHR ''='' \<in> set line \<Longrightarrow>
         c = takeWhile whitespace line @ leaf_key line @ '' = '' @ leaf_value line"
    by (simp add: normal_line_def Let_def line_def)
  from assms(1) ne ns show "\<not> (\<not> is_tree_node line \<and> CHR ''='' \<in> set line) \<Longrightarrow>
         c = takeWhile whitespace line @ strip line"
    by (auto simp add: normal_line_def Let_def line_def)
qed

lemma read_normal_leaf:
  fixes n :: nat
  assumes nl: "normal_line cc line0 = Some c"
    and c: "c = replicate n CHR '' '' @ key @ '' = '' @ v"
    and key: "legal_key cc key" and v: "legal_value cc rc v"
    and cc: "legal_comment_char cc" and ind: "indentation \<noteq> 0"
  shows "read_line_py line0 kl cc indentation t = read_line_py c kl cc indentation t"
proof -
  define line where "line = takeWhile (\<lambda>x. x \<noteq> cc) line0"
  note nls = normal_line_Some [OF nl, folded line_def]
  from key have kne: "key \<noteq> []" and khd: "\<not> whitespace (hd key)"
    and kbr: "hd key \<noteq> CHR ''[''" and keq: "CHR ''='' \<notin> set key"
    by (simp_all add: legal_key_def)
  define x' where "x' = key @ '' = '' @ v"
  have x': "x' \<noteq> []" "\<not> whitespace (hd x')" "hd x' = hd key" "c = replicate n CHR '' '' @ x'"
    using kne khd c by (simp_all add: x'_def)
  have alln: "list_all whitespace (replicate n CHR '' '')"
    by (simp add: list_all_iff)
  have leafline: "\<not> is_tree_node line \<and> CHR ''='' \<in> set line"
  proof (rule ccontr)
    assume other: "\<not> (\<not> is_tree_node line \<and> CHR ''='' \<in> set line)"
    from nls(5) [OF other] x'(4)
    have "takeWhile whitespace line @ strip line = replicate n CHR '' '' @ x'" by simp
    from indent_unique [OF this takeWhile_whitespace_all alln nls(3) strip_hd [OF nls(3)] x'(1,2)]
    have st: "strip line = x'" by simp
    then have "CHR ''='' \<in> set (strip line)" by (simp add: x'_def)
    then have "CHR ''='' \<in> set line" using set_strip by blast
    with other have "is_tree_node line" by blast
    then have "hd (strip line) = CHR ''[''" by (simp add: is_tree_node_def Let_def)
    with st x'(3) kbr show False by simp
  qed
  then have notnode: "\<not> is_tree_node line" and haseq: "CHR ''='' \<in> set line" by simp_all
  from nls(4) [OF leafline] x'(4)
  have eq: "takeWhile whitespace line @ leaf_key line @ '' = '' @ leaf_value line
            = replicate n CHR '' '' @ x'" by simp
  have lkne: "leaf_key line \<noteq> []"
  proof
    assume "leaf_key line = []"
    with eq have "(takeWhile whitespace line @ '' '') @ (CHR ''='' # '' '' @ leaf_value line)
                  = replicate n CHR '' '' @ x'" by simp
    from indent_unique [OF this _ alln _ _ x'(1,2)] takeWhile_whitespace_all [of line]
    have "CHR ''='' # '' '' @ leaf_value line = x'" by (simp add: list_all_iff)
    then have "hd x' = CHR ''=''" by (metis list.sel(1))
    with x'(3) kne keq show False by (cases key) auto
  qed
  have lkhd: "\<not> whitespace (hd (leaf_key line))"
    using lkne haseq strip_hd by (simp add: leaf_key_def)
  have "leaf_key line @ '' = '' @ leaf_value line \<noteq> []"
    "\<not> whitespace (hd (leaf_key line @ '' = '' @ leaf_value line))"
    using lkne lkhd by simp_all
  from indent_unique [OF eq takeWhile_whitespace_all alln this x'(1,2)]
  have tw: "takeWhile whitespace line = replicate n CHR '' ''"
    and body: "leaf_key line @ '' = '' @ leaf_value line = x'" by simp_all
  from body have "(leaf_key line @ '' '') @ CHR ''='' # ('' '' @ leaf_value line)
                  = (key @ '' '') @ CHR ''='' # ('' '' @ v)"
    by (simp add: x'_def)
  from first_eq_unique [OF this] leaf_key_no_eq [OF haseq] keq
  have lk: "leaf_key line = key" and lv: "leaf_value line = v" by simp_all
  note wf = written_leaf_facts [OF key v cc, of n, folded c]
  from wf(3) kne have ckne: "leaf_key c \<noteq> []" by simp
  note A = read_leaf_line [OF ind line_def notnode lkne, of kl t, unfolded tw lk lv]
  note B = read_leaf_line [OF ind wf(1) [symmetric] wf(2) ckne, of kl t,
      unfolded wf(3) wf(4) wf(5)]
  show ?thesis
    by (simp only: A B)
qed


lemma read_normal_node:
  fixes n :: nat
  assumes nl: "normal_line cc line0 = Some c"
    and c: "c = replicate n CHR '' '' @ CHR ''['' # key @ '']''"
    and key: "legal_key cc key"
    and cc: "legal_comment_char cc" and ind: "indentation \<noteq> 0"
  shows "read_line_py line0 kl cc indentation t = read_line_py c kl cc indentation t"
proof -
  define line where "line = takeWhile (\<lambda>x. x \<noteq> cc) line0"
  note nls = normal_line_Some [OF nl, folded line_def]
  from key have kne: "key \<noteq> []" and khd: "\<not> whitespace (hd key)"
    and kbr: "hd key \<noteq> CHR ''[''" and keq: "CHR ''='' \<notin> set key"
    by (simp_all add: legal_key_def)
  define x' where "x' = CHR ''['' # key @ '']''"
  have x': "x' \<noteq> []" "\<not> whitespace (hd x')" "c = replicate n CHR '' '' @ x'"
    "CHR ''='' \<notin> set x'"
    using keq c by (simp_all add: x'_def)
  have alln: "list_all whitespace (replicate n CHR '' '')"
    by (simp add: list_all_iff)
  have other: "\<not> (\<not> is_tree_node line \<and> CHR ''='' \<in> set line)"
  proof
    assume leafline: "\<not> is_tree_node line \<and> CHR ''='' \<in> set line"
    from nls(4) [OF leafline] have "CHR ''='' \<in> set c" by simp
    with x'(3,4) show False by simp
  qed
  from nls(5) [OF other] x'(3)
  have "takeWhile whitespace line @ strip line = replicate n CHR '' '' @ x'" by simp
  from indent_unique [OF this takeWhile_whitespace_all alln nls(3) strip_hd [OF nls(3)] x'(1,2)]
  have tw: "takeWhile whitespace line = replicate n CHR '' ''" and st: "strip line = x'"
    by simp_all
  from st kne have node: "is_tree_node line"
    by (simp add: is_tree_node_def Let_def x'_def)
  have k: "butlast (tl (strip line)) = key"
    by (simp add: st x'_def butlast_append)
  note wf = written_node_facts [OF key cc, of n, folded c]
  have k': "butlast (tl (strip c)) = key"
    by (simp add: wf(3) butlast_append)
  from k khd kbr have h: "\<not> whitespace (hd (butlast (tl (strip line))))"
    "hd (butlast (tl (strip line))) \<noteq> CHR ''[''" by simp_all
  from k' khd kbr have h': "\<not> whitespace (hd (butlast (tl (strip c))))"
    "hd (butlast (tl (strip c))) \<noteq> CHR ''[''" by simp_all
  note A = read_node_line [OF ind line_def node h, of kl t, unfolded tw k]
  note B = read_node_line [OF ind wf(1) [symmetric] wf(2) h', of kl t, unfolded wf(4) k']
  show ?thesis
    by (simp only: A B)
qed

lemma read_normal_line:
  assumes "normal_line cc line0 = Some c" and "written_line cc rc c"
    and "legal_comment_char cc" and "indentation \<noteq> 0"
  shows "read_line_py line0 kl cc indentation t = read_line_py c kl cc indentation t"
  using assms read_normal_leaf read_normal_node
  unfolding written_line_def by blast

lemma read_normal_text:
  assumes cc: "legal_comment_char cc" and ind: "indentation \<noteq> 0"
  shows "list_all (written_line cc rc) (normal_text cc file_lines) \<Longrightarrow>
     read_lines_py file_lines kl cc indentation t
       = read_lines_py (normal_text cc file_lines) kl cc indentation t"
proof (induction file_lines arbitrary: kl t)
  case Nil
  then show ?case by (simp add: normal_text_def map_filter_simps)
next
  case (Cons line0 file_lines)
  show ?case
  proof (cases "normal_line cc line0")
    case None
    with Cons.prems have "list_all (written_line cc rc) (normal_text cc file_lines)"
      by (simp add: normal_text_def map_filter_simps)
    from Cons.IH [OF this] None show ?thesis
      by (simp add: normal_text_def map_filter_simps normal_line_None)
  next
    case (Some c)
    with Cons.prems have w: "written_line cc rc c"
      and rest: "list_all (written_line cc rc) (normal_text cc file_lines)"
      by (simp_all add: normal_text_def map_filter_simps)
    from read_normal_line [OF Some w cc ind]
    have "read_line_py line0 kl cc indentation t = read_line_py c kl cc indentation t" .
    with Cons.IH [OF rest] Some show ?thesis
      by (simp add: normal_text_def map_filter_simps split: prod.splits sum.splits)
  qed
qed

lemma written_lines:
  "legal_tree cc rc t \<Longrightarrow> list_all (written_line cc rc) (write_tree_py t depth indentation)"
proof (induction t depth indentation rule: write_tree_py.induct)
  case (1 depth indentation)
  then show ?case by simp
next
  case (2 key sub rest depth indentation)
  then have "legal_key cc key" by simp
  then have "written_line cc rc
      (replicate (nat (int depth * indentation)) CHR '' '' @ CHR ''['' # key @ '']'')"
    unfolding written_line_def by blast
  with 2 show ?case by (simp add: write_tree_node_line_py_def)
next
  case (3 key v rest depth indentation)
  then have "legal_key cc key" "legal_value cc rc v" by simp_all
  then have "written_line cc rc
      (replicate (nat (int depth * indentation)) CHR '' '' @ key @ '' = '' @ v)"
    unfolding written_line_def by blast
  with 3 show ?case by (simp add: write_tree_leaf_line_py_def)
qed

lemma normal_written_line:
  assumes "written_line cc rc c" and cc: "legal_comment_char cc"
  shows "normal_line cc c = Some c"
proof -
  from assms(1) consider
    (leaf) n key v where "legal_key cc key" "legal_value cc rc v"
      "c = replicate n CHR '' '' @ key @ '' = '' @ v"
    | (node) n key where "legal_key cc key" "c = replicate n CHR '' '' @ CHR ''['' # key @ '']''"
    unfolding written_line_def by blast
  then show ?thesis
  proof cases
    case leaf
    note wf = written_leaf_facts [OF leaf(1,2) cc, of n, folded leaf(3)]
    show ?thesis
      unfolding normal_line_def Let_def wf(1)
      using wf(2-8) leaf(3) by simp
  next
    case node
    note wf = written_node_facts [OF node(1) cc, of n, folded node(2)]
    show ?thesis
      unfolding normal_line_def Let_def wf(1)
      using wf(2-6) node(2) by simp
  qed
qed

lemma normal_written_text:
  "list_all (written_line cc rc) ls \<Longrightarrow> legal_comment_char cc \<Longrightarrow> normal_text cc ls = ls"
proof (induction ls)
  case Nil
  then show ?case by (simp add: normal_text_def map_filter_simps)
next
  case (Cons c ls)
  then have w: "written_line cc rc c" and "normal_text cc ls = ls"
    by simp_all
  moreover from normal_written_line [OF w Cons.prems(2)] have "normal_line cc c = Some c" .
  ultimately have "normal_line cc c = Some c" and "normal_text cc ls = ls"
    by simp_all
  then show ?case by (simp add: normal_text_def map_filter_simps)
qed

lemma lf_break: "line_break (char_of (10 :: nat))"
  by (simp add: line_break_def)

lemma splitlines_write_lines:
  "list_all (list_all (\<lambda>c. \<not> line_break c)) ls \<Longrightarrow> splitlines (write_lines ls) = ls"
proof (induction ls)
  case Nil
  then show ?case by (simp add: write_lines_def splitlines.simps)
next
  case (Cons l ls)
  then have l: "list_all (\<lambda>c. \<not> line_break c) l" and ih: "splitlines (write_lines ls) = ls"
    by simp_all
  have w: "write_lines (l # ls) = l @ char_of (10 :: nat) # write_lines ls"
    by (simp add: write_lines_def)
  have tw: "takeWhile (\<lambda>c. \<not> line_break c) (l @ char_of (10 :: nat) # write_lines ls) = l"
    using l lf_break by (simp add: takeWhile_append2 list_all_iff takeWhile_tail)
  have dw: "dropWhile (\<lambda>c. \<not> line_break c) (l @ char_of (10 :: nat) # write_lines ls)
              = char_of (10 :: nat) # write_lines ls"
    using l lf_break by (simp add: dropWhile_append2 list_all_iff)
  have ne: "char_of (10 :: nat) \<noteq> (char_of (13 :: nat) :: char)"
    by simp
  show ?case
    unfolding w
    by (subst splitlines.simps) (simp add: tw dw ne ih)
qed

lemma written_line_no_break:
  assumes "written_line cc rc c"
  shows "list_all (\<lambda>x. \<not> line_break x) c"
proof -
  have sp: "\<not> line_break CHR '' ''" "\<not> line_break CHR ''=''" "\<not> line_break CHR ''[''"
    "\<not> line_break CHR '']''"
    by (simp_all add: line_break_def)
  from assms consider
    (leaf) n key v where "legal_key cc key" "legal_value cc rc v"
      "c = replicate n CHR '' '' @ key @ '' = '' @ v"
    | (node) n key where "legal_key cc key" "c = replicate n CHR '' '' @ CHR ''['' # key @ '']''"
    unfolding written_line_def by blast
  then show ?thesis
  proof cases
    case leaf
    then show ?thesis using sp
      by (auto simp add: legal_key_def legal_value_def list_all_iff)
  next
    case node
    then show ?thesis using sp
      by (auto simp add: legal_key_def list_all_iff)
  qed
qed

lemma written_no_break:
  assumes "list_all (written_line cc rc) ls"
  shows "list_all (list_all (\<lambda>x. \<not> line_break x)) ls"
  using assms written_line_no_break by (auto simp add: list_all_iff)

text \<open>
  Why a legal key or value holds no line break: the file written for a value with a line
  feed is split inside the value.
\<close>

lemma line_break_in_value:
  "legal_key CHR ''#'' ''k'' \<and>
   tofile_py [(''k'', Leaf (''a'' @ [char_of (10 :: nat)] @ ''b''))] 4
     = [''k = a'' @ [char_of (10 :: nat)] @ ''b''] \<and>
   splitlines (write_lines (tofile_py [(''k'', Leaf (''a'' @ [char_of (10 :: nat)] @ ''b''))] 4))
     = [''k = a'', ''b'']"
  by code_simp

text \<open>
  Claim C4, as stated, fails.  A line without \<open>=\<close> is a leaf with the empty value, and
  the writer always writes \<open>key = value\<close>: the text \<open>flag\<close> comes back as \<open>flag = \<close>.
  A key assigned twice comes back once, with its last value.  In both cases what is
  written differs from the normalised text, and the two still differ when comments and
  all whitespace are removed.
\<close>

theorem roundtrip_counterexample:
  "fst (read_file_py failing_library [''flag''] CHR ''#'' CHR ''%'' 4 []) = Inr () \<and>
   tofile_py (snd (read_file_py failing_library [''flag''] CHR ''#'' CHR ''%'' 4 [])) 4
     = [''flag = ''] \<and>
   normal_text CHR ''#'' [''flag''] = [''flag''] \<and>
   spec_normalize CHR ''#''
       (tofile_py (snd (read_file_py failing_library [''flag''] CHR ''#'' CHR ''%'' 4 [])) 4)
     \<noteq> spec_normalize CHR ''#'' [''flag''] \<and>
   fst (read_file_py failing_library [''a = 1'', ''a = 2''] CHR ''#'' CHR ''%'' 4 []) = Inr () \<and>
   tofile_py (snd (read_file_py failing_library [''a = 1'', ''a = 2''] CHR ''#'' CHR ''%'' 4 []))
       4
     = [''a = 2''] \<and>
   normal_text CHR ''#'' [''a = 1'', ''a = 2''] = [''a = 1'', ''a = 2''] \<and>
   spec_normalize CHR ''#''
       (tofile_py
          (snd (read_file_py failing_library [''a = 1'', ''a = 2''] CHR ''#'' CHR ''%'' 4 [])) 4)
     \<noteq> spec_normalize CHR ''#'' [''a = 1'', ''a = 2'']"
  by code_simp

text \<open>
  Claim C4, amended.  For a positive indentation and a legal comment delimiter, and for
  every legal tree with distinct keys (a legal key or value holds no line break):
  whenever the normalised lines of a file are what \<open>tofile\<close> writes for the tree,
  reading the file into an empty configuration returns normally and gives the tree (the
  reference pass changes nothing), so that writing what was read gives the normalised
  text, line by line.  The lines \<open>tofile\<close> writes for such a tree hold no line break,
  so the file made of them is split into these same lines; they are normalised already;
  and the file is read back as the tree and written again as the same file.
\<close>

theorem nested_roundtrip:
  assumes "0 < indentation" and "legal_comment_char cc" and "distinct_keys t"
    and "legal_tree cc rc t"
  shows "(normal_text cc file_lines = tofile_py t indentation \<longrightarrow>
       read_file_py lib file_lines cc rc indentation [] = (Inr (), t) \<and>
       tofile_py (snd (read_file_py lib file_lines cc rc indentation [])) indentation
         = normal_text cc file_lines) \<and>
     splitlines (write_lines (tofile_py t indentation)) = tofile_py t indentation \<and>
     normal_text cc (tofile_py t indentation) = tofile_py t indentation \<and>
     read_file_py lib (splitlines (write_lines (tofile_py t indentation))) cc rc indentation []
       = (Inr (), t) \<and>
     write_lines
       (tofile_py
          (snd (read_file_py lib (splitlines (write_lines (tofile_py t indentation)))
                  cc rc indentation []))
          indentation)
       = write_lines (tofile_py t indentation)"
  (is "(?n \<longrightarrow> ?r \<and> ?w) \<and> ?s \<and> ?nw \<and> ?rw \<and> ?ww")
proof -
  from assms(1) have ind: "indentation \<noteq> 0" by simp
  have written: "list_all (written_line cc rc) (tofile_py t indentation)"
    unfolding tofile_py_def using assms(4) by (rule written_lines)
  have s: ?s
    using written by (intro splitlines_write_lines written_no_break)
  have nw: ?nw
    using written assms(2) by (rule normal_written_text)
  have rw0: "read_file_py lib (tofile_py t indentation) cc rc indentation [] = (Inr (), t)"
    using written_roundtrip [OF assms(1-4), of lib] by simp
  have rw: ?rw
    unfolding s by (rule rw0)
  have ww: ?ww
    unfolding s rw0 by simp
  have first: "?n \<longrightarrow> ?r \<and> ?w"
  proof
    assume n: ?n
    from written n have "list_all (written_line cc rc) (normal_text cc file_lines)"
      by simp
    from read_normal_text [OF assms(2) ind this, of "[]" "[]"] n
    have "read_lines_py file_lines [] cc indentation []
            = read_lines_py (tofile_py t indentation) [] cc indentation []"
      by simp
    then have "read_file_py lib file_lines cc rc indentation []
            = read_file_py lib (tofile_py t indentation) cc rc indentation []"
      by (simp add: read_file_py_def)
    with rw0 have r: ?r by simp
    with n show "?r \<and> ?w" by simp
  qed
  from first s nw rw ww show ?thesis
    by (intro conjI)
qed

theorem nested_roundtrip_witness:
  "(0::int) < 4 \<and> legal_comment_char CHR ''#'' \<and>
   distinct_keys
     [(''option1'', Leaf ''1''),
      (''section1'', Section [(''option2'', Leaf ''2''),
         (''subsection11'', Section [(''option3'', Leaf ''3'')])])] \<and>
   legal_tree CHR ''#'' CHR ''%''
     [(''option1'', Leaf ''1''),
      (''section1'', Section [(''option2'', Leaf ''2''),
         (''subsection11'', Section [(''option3'', Leaf ''3'')])])] \<and>
   normal_text CHR ''#''
     [''# example'', ''option1=1'', [], ''[section1]   # first section'',
      ''    option2   =   2'', ''    [subsection11]'', ''        option3 = 3  '']
   = tofile_py
       [(''option1'', Leaf ''1''),
        (''section1'', Section [(''option2'', Leaf ''2''),
           (''subsection11'', Section [(''option3'', Leaf ''3'')])])] 4 \<and>
   tofile_py
     [(''option1'', Leaf ''1''),
      (''section1'', Section [(''option2'', Leaf ''2''),
         (''subsection11'', Section [(''option3'', Leaf ''3'')])])] 4
   = [''option1 = 1'', ''[section1]'', ''    option2 = 2'', ''    [subsection11]'',
      ''        option3 = 3''] \<and>
   read_file_py failing_library
     [''# example'', ''option1=1'', [], ''[section1]   # first section'',
      ''    option2   =   2'', ''    [subsection11]'', ''        option3 = 3  '']
     CHR ''#'' CHR ''%'' 4 []
   = (Inr (),
      [(''option1'', Leaf ''1''),
       (''section1'', Section [(''option2'', Leaf ''2''),
          (''subsection11'', Section [(''option3'', Leaf ''3'')])])]) \<and>
   splitlines (write_lines
     (tofile_py
       [(''option1'', Leaf ''1''),
        (''section1'', Section [(''option2'', Leaf ''2''),
           (''subsection11'', Section [(''option3'', Leaf ''3'')])])] 4))
   = [''option1 = 1'', ''[section1]'', ''    option2 = 2'', ''    [subsection11]'',
      ''        option3 = 3''] \<and>
   read_file_py failing_library
     (splitlines (write_lines
        (tofile_py
          [(''option1'', Leaf ''1''),
           (''section1'', Section [(''option2'', Leaf ''2''),
              (''subsection11'', Section [(''option3'', Leaf ''3'')])])] 4)))
     CHR ''#'' CHR ''%'' 4 []
   = (Inr (),
      [(''option1'', Leaf ''1''),
       (''section1'', Section [(''option2'', Leaf ''2''),
          (''subsection11'', Section [(''option3'', Leaf ''3'')])])])"
proof -
  have ind: "(0::int) < 4" by simp
  have cc: "legal_comment_char CHR ''#''" by code_simp
  have dk: "distinct_keys
     [(''option1'', Leaf ''1''),
      (''section1'', Section [(''option2'', Leaf ''2''),
         (''subsection11'', Section [(''option3'', Leaf ''3'')])])]"
    by code_simp
  have legal: "legal_tree CHR ''#'' CHR ''%''
     [(''option1'', Leaf ''1''),
      (''section1'', Section [(''option2'', Leaf ''2''),
         (''subsection11'', Section [(''option3'', Leaf ''3'')])])]"
    by code_simp
  have normal: "normal_text CHR ''#''
     [''# example'', ''option1=1'', [], ''[section1]   # first section'',
      ''    option2   =   2'', ''    [subsection11]'', ''        option3 = 3  '']
   = tofile_py
       [(''option1'', Leaf ''1''),
        (''section1'', Section [(''option2'', Leaf ''2''),
           (''subsection11'', Section [(''option3'', Leaf ''3'')])])] 4"
    by code_simp
  have written: "tofile_py
     [(''option1'', Leaf ''1''),
      (''section1'', Section [(''option2'', Leaf ''2''),
         (''subsection11'', Section [(''option3'', Leaf ''3'')])])] 4
   = [''option1 = 1'', ''[section1]'', ''    option2 = 2'', ''    [subsection11]'',
      ''        option3 = 3'']"
    by code_simp
  note rt = nested_roundtrip [OF ind cc dk legal, of
      "[''# example'', ''option1=1'', [], ''[section1]   # first section'',
        ''    option2   =   2'', ''    [subsection11]'', ''        option3 = 3  '']"
      failing_library]
  from rt normal
  have r: "read_file_py failing_library
     [''# example'', ''option1=1'', [], ''[section1]   # first section'',
      ''    option2   =   2'', ''    [subsection11]'', ''        option3 = 3  '']
     CHR ''#'' CHR ''%'' 4 []
   = (Inr (),
      [(''option1'', Leaf ''1''),
       (''section1'', Section [(''option2'', Leaf ''2''),
          (''subsection11'', Section [(''option3'', Leaf ''3'')])])])"
    by blast
  from rt have s0: "splitlines (write_lines
     (tofile_py
       [(''option1'', Leaf ''1''),
        (''section1'', Section [(''option2'', Leaf ''2''),
           (''subsection11'', Section [(''option3'', Leaf ''3'')])])] 4))
   = tofile_py
       [(''option1'', Leaf ''1''),
        (''section1'', Section [(''option2'', Leaf ''2''),
           (''subsection11'', Section [(''option3'', Leaf ''3'')])])] 4"
    by blast
  have s: "splitlines (write_lines
     (tofile_py
       [(''option1'', Leaf ''1''),
        (''section1'', Section [(''option2'', Leaf ''2''),
           (''subsection11'', Section [(''option3'', Leaf ''3'')])])] 4))
   = [''option1 = 1'', ''[section1]'', ''    option2 = 2'', ''    [subsection11]'',
      ''        option3 = 3'']"
    using s0 unfolding written .
  from rt have rw: "read_file_py failing_library
     (splitlines (write_lines
        (tofile_py
          [(''option1'', Leaf ''1''),
           (''section1'', Section [(''option2'', Leaf ''2''),
              (''subsection11'', Section [(''option3'', Leaf ''3'')])])] 4)))
     CHR ''#'' CHR ''%'' 4 []
   = (Inr (),
      [(''option1'', Leaf ''1''),
       (''section1'', Section [(''option2'', Leaf ''2''),
          (''subsection11'', Section [(''option3'', Leaf ''3'')])])])"
    by blast
  from ind cc dk legal normal written r s rw show ?thesis
    by (intro conjI)
qed

end
